theory Spec2Isabelle
  imports Main "HOL-Library.Word"
begin

section \<open>JavaScript strings\<close>

text \<open>
  A JavaScript string is a sequence of UTF-16 code units. The regular expression of
  \<^verbatim>\<open>BabelModuleFinder.evaluate\<close> has no \<^verbatim>\<open>u\<close> flag, so it works on code units.
  \<open>js\<close> turns a HOL string literal into the JavaScript string with the same characters.
\<close>

type_synonym code_unit = "16 word"
type_synonym js_string = "code_unit list"

definition js :: "string \<Rightarrow> js_string" where
  "js s = map of_char s"

text \<open>
  \<^verbatim>\<open>String(n)\<close> for a non-negative integer \<open>n\<close>, as a template literal
  \<^verbatim>\<open>`${n}`\<close> computes it: the decimal digits, most significant first.
\<close>

fun digits :: "nat \<Rightarrow> nat list" where
  "digits n = (if n < 10 then [n] else digits (n div 10) @ [n mod 10])"

declare digits.simps [simp del]

definition numberToString :: "nat \<Rightarrow> js_string" where
  "numberToString n = map (\<lambda>d. of_nat (48 + d)) (digits n)"

section \<open>The fingerprint regular expression\<close>

text \<open>
  The regular expression of the source is a sequence of atoms, each matching exactly one
  code unit: a literal character (written plainly or escaped with a backslash) or the
  wildcard \<^verbatim>\<open>.\<close>, which matches every code unit but the four line terminators
  U+000A, U+000D, U+2028 and U+2029. There is no quantifier, group, class or alternative
  (each \<^verbatim>\<open>|\<close> is escaped, and each brace and \<^verbatim>\<open>]\<close> stands for itself).
\<close>

datatype atom = Lit code_unit | Dot

definition isLineTerminator :: "code_unit \<Rightarrow> bool" where
  "isLineTerminator c = (c = 0x000A \<or> c = 0x000D \<or> c = 0x2028 \<or> c = 0x2029)"

fun atom_matches :: "atom \<Rightarrow> code_unit \<Rightarrow> bool" where
  "atom_matches (Lit l) c = (c = l)"
| "atom_matches Dot c = (\<not> isLineTerminator c)"

text \<open>
  \<open>regex_atoms\<close> reads the text of such a regular expression. A HOL string literal cannot
  hold a backslash, so the escape character of the source is written \<^verbatim>\<open>%\<close> here (the
  source's expression has no \<^verbatim>\<open>%\<close> of its own): \<^verbatim>\<open>%(\<close> is the source's escaped
  parenthesis.
\<close>

fun regex_atoms :: "string \<Rightarrow> atom list" where
  "regex_atoms [] = []"
| "regex_atoms [c] = [if c = CHR ''.'' then Dot else Lit (of_char c)]"
| "regex_atoms (c # d # cs) =
     (if c = CHR ''%'' then Lit (of_char d) # regex_atoms cs
      else (if c = CHR ''.'' then Dot else Lit (of_char c)) # regex_atoms (d # cs))"

text \<open>The atoms match a prefix of the text.\<close>

fun match_here :: "atom list \<Rightarrow> js_string \<Rightarrow> bool" where
  "match_here [] s = True"
| "match_here (a # as) [] = False"
| "match_here (a # as) (c # cs) = (atom_matches a c \<and> match_here as cs)"

text \<open>
  \<^verbatim>\<open>RegExp.prototype.test\<close> of an expression without the global and sticky flags: the
  search starts at index 0 and tries every start position in turn.
\<close>

fun regex_test :: "atom list \<Rightarrow> js_string \<Rightarrow> bool" where
  "regex_test r [] = match_here r []"
| "regex_test r (c # cs) = (match_here r (c # cs) \<or> regex_test r cs)"

definition arraySpreadRegex :: "atom list" where
  "arraySpreadRegex = regex_atoms
     ''{var .=.%(.%[0]%),.=.%(.%[1]%),.=.%(.%[2]%),.=.%(.%[3]%);.%.exports=function%(.%){return .%(.%)%|%|.%(.%)%|%|.%(.%)%|%|.%(%);};}''"

section \<open>Modules\<close>

text \<open>
  The class \<^verbatim>\<open>Module\<close> is not among the sources; its fields are those the sources read
  and write (\<^verbatim>\<open>moduleId\<close>, \<^verbatim>\<open>moduleName\<close>, \<^verbatim>\<open>dependencies\<close>, \<^verbatim>\<open>originalCode\<close>,
  \<^verbatim>\<open>ignored\<close>, \<^verbatim>\<open>isNpmModule\<close>, \<^verbatim>\<open>moduleCode\<close>) and those of the specification's data
  model. The syntax trees are opaque: the type \<open>'ast\<close>.
\<close>

record 'ast module =
  moduleId :: nat
  moduleName :: "js_string option"
  dependencies :: "nat list"
  originalCode :: js_string
  factoryBody :: 'ast
  moduleCode :: "'ast option"
  tags :: "js_string list"
  isNpmModule :: bool
  npmModuleName :: "js_string option"
  ignored :: bool

text \<open>
  Modelled from the spec: \<^verbatim>\<open>ModuleFinder.tagAsNpmModule\<close> (the base class
  \<^verbatim>\<open>./moduleFinder\<close> is not among the sources). The specification: it
  "sets \<^verbatim>\<open>isNpmModule=true\<close>, \<^verbatim>\<open>npmModuleName=packageName\<close>, \<^verbatim>\<open>ignored=true\<close>".
\<close>

definition tagAsNpmModule :: "js_string \<Rightarrow> 'ast module \<Rightarrow> 'ast module" where
  "tagAsNpmModule packageName m =
     m\<lparr>isNpmModule := True, npmModuleName := Some packageName, ignored := True\<rparr>"

text \<open>\<^verbatim>\<open>BabelModuleFinder.evaluate\<close>, on the module the finder was built for.\<close>

definition evaluate :: "'ast module \<Rightarrow> 'ast module" where
  "evaluate m =
     (if regex_test arraySpreadRegex (originalCode m)
      then tagAsNpmModule (js ''@babel/runtime/helpers/toConsumableArray'') m
      else m)"

section \<open>The module graph\<close>

text \<open>
  \<^verbatim>\<open>const modules: Module[]\<close> is a sparse JavaScript array: \<^verbatim>\<open>modules[id] = module\<close>
  beyond the end leaves holes, and \<^verbatim>\<open>delete modules[i]\<close> makes one. A hole is \<open>None\<close>.
  \<^verbatim>\<open>forEach\<close>, \<^verbatim>\<open>filter\<close>, \<^verbatim>\<open>every\<close> and \<^verbatim>\<open>map\<close> skip the holes; \<^verbatim>\<open>find\<close> visits
  them as \<^verbatim>\<open>undefined\<close>.
\<close>

type_synonym 'ast modules = "'ast module option list"

definition array_set :: "'a option list \<Rightarrow> nat \<Rightarrow> 'a \<Rightarrow> 'a option list" where
  "array_set xs i v =
     (if i < length xs then xs[i := Some v]
      else xs @ replicate (i - length xs) None @ [Some v])"

text \<open>The elements an iteration visits, each with its index.\<close>

definition entries :: "'a option list \<Rightarrow> (nat \<times> 'a) list" where
  "entries xs =
     concat (map (\<lambda>(i, slot). case slot of None \<Rightarrow> [] | Some x \<Rightarrow> [(i, x)]) (enumerate 0 xs))"

definition elements :: "'a option list \<Rightarrow> 'a list" where
  "elements xs = map snd (entries xs)"

text \<open>
  The module objects are shared between \<^verbatim>\<open>modules\<close> and the arrays filtered from it
  (\<^verbatim>\<open>nonIgnoredModules\<close>, \<^verbatim>\<open>modulesToIgnore\<close>): a filtered array is the list of the
  indices of its modules in \<^verbatim>\<open>modules\<close>, and a write to one of its modules is a write to
  that slot.
\<close>

definition filter_indices :: "('a \<Rightarrow> bool) \<Rightarrow> 'a option list \<Rightarrow> nat list" where
  "filter_indices p xs = map fst (filter (\<lambda>(i, x). p x) (entries xs))"

definition update_slots :: "('a \<Rightarrow> 'a) \<Rightarrow> nat list \<Rightarrow> 'a option list \<Rightarrow> 'a option list" where
  "update_slots f idxs xs =
     map (\<lambda>(i, slot). if i \<in> set idxs then map_option f slot else slot) (enumerate 0 xs)"

text \<open>
  Processes that end: \<^verbatim>\<open>process.exit(code)\<close>, or an error thrown and never caught.
\<close>

datatype fatal = Exit nat | Thrown js_string

section \<open>Filtering by the entry module\<close>

text \<open>\<^verbatim>\<open>modules.find((mod) => mod?.moduleId === moduleId)\<close>, \<^verbatim>\<open>undefined\<close> being \<open>None\<close>.\<close>

definition find_module :: "'ast modules \<Rightarrow> nat \<Rightarrow> 'ast module option" where
  "find_module modules mid =
     (case List.find (\<lambda>slot. case slot of None \<Rightarrow> False | Some m \<Rightarrow> moduleId m = mid) modules of
        None \<Rightarrow> None
      | Some slot \<Rightarrow> slot)"

text \<open>
  \<^verbatim>\<open>entryModuleDependencies\<close> is a \<^verbatim>\<open>Set<number>\<close>: its elements in insertion order.
  \<^verbatim>\<open>forEach\<close> on a set also visits the elements added while it runs, so the walk is by
  position in the growing list.
\<close>

definition set_add :: "nat list \<Rightarrow> nat \<Rightarrow> nat list" where
  "set_add s x = (if x \<in> set s then s else s @ [x])"

definition add_all :: "nat list \<Rightarrow> nat list \<Rightarrow> nat list" where
  "add_all s deps = fold (\<lambda>dep s. set_add s dep) deps s"

definition missingDependency :: "nat \<Rightarrow> fatal" where
  "missingDependency mid =
     Thrown (js ''Failed to find entry module/dependency '' @ numberToString mid)"

definition allDependencies :: "'ast modules \<Rightarrow> nat set" where
  "allDependencies modules = (\<Union>m \<in> set (elements modules). set (dependencies m))"

function forEachDependency ::
  "'ast modules \<Rightarrow> bool \<Rightarrow> nat list \<Rightarrow> nat \<Rightarrow> fatal + nat list" where
  "forEachDependency modules agressive s i =
     (if i < length s then
        (case find_module modules (s ! i) of
           None \<Rightarrow>
             if \<not> agressive then Inl (missingDependency (s ! i))
             else forEachDependency modules agressive s (Suc i)
         | Some m \<Rightarrow>
             forEachDependency modules agressive (add_all s (dependencies m)) (Suc i))
      else Inr s)"
  by pat_completeness auto

lemma set_set_add: "set (set_add s x) = insert x (set s)"
  by (auto simp: set_add_def)

lemma set_add_prefix: "\<exists>t. set_add s x = s @ t"
  by (simp add: set_add_def)

lemma fold_set_add_set: "set (fold (\<lambda>dep s. set_add s dep) deps s) = set s \<union> set deps"
  by (induction deps arbitrary: s) (auto simp: set_set_add)

lemma set_add_all: "set (add_all s deps) = set s \<union> set deps"
  by (simp add: add_all_def fold_set_add_set)

lemma fold_set_add_prefix: "\<exists>t. fold (\<lambda>dep s. set_add s dep) deps s = s @ t"
proof (induction deps arbitrary: s)
  case Nil
  then show ?case by simp
next
  case (Cons d deps)
  obtain t where t: "set_add s d = s @ t" using set_add_prefix by blast
  obtain u where "fold (\<lambda>dep s. set_add s dep) deps (set_add s d) = set_add s d @ u"
    using Cons.IH by blast
  with t show ?case by simp
qed

lemma add_all_prefix: "\<exists>t. add_all s deps = s @ t"
  by (simp add: add_all_def fold_set_add_prefix)

lemma fold_set_add_same:
  "set deps \<subseteq> set s \<Longrightarrow> fold (\<lambda>dep s. set_add s dep) deps s = s"
  by (induction deps arbitrary: s) (auto simp: set_add_def)

lemma add_all_same: "set deps \<subseteq> set s \<Longrightarrow> add_all s deps = s"
  by (simp add: add_all_def fold_set_add_same)

lemma set_entries: "set (entries xs) = {(i, x). i < length xs \<and> xs ! i = Some x}"
  by (auto simp: entries_def in_set_enumerate_eq split: option.splits)

lemma set_elements: "set (elements xs) = {x. Some x \<in> set xs}"
  by (force simp: elements_def set_entries in_set_conv_nth)

lemma find_module_Some:
  "find_module modules mid = Some m \<Longrightarrow> Some m \<in> set modules \<and> moduleId m = mid"
  by (auto simp: find_module_def find_Some_iff in_set_conv_nth split: option.splits)

lemma find_module_dependencies:
  "find_module modules mid = Some m \<Longrightarrow> set (dependencies m) \<subseteq> allDependencies modules"
  by (auto simp: allDependencies_def set_elements dest: find_module_Some)

lemma finite_allDependencies: "finite (allDependencies modules)"
  by (simp add: allDependencies_def)

termination forEachDependency
proof (relation "inv_image (less_than <*lex*> less_than)
    (\<lambda>(modules, agressive, s, i). (card (allDependencies modules - set s), length s - i))")
  show "wf (inv_image (less_than <*lex*> less_than)
    (\<lambda>(modules, agressive, s, i). (card (allDependencies modules - set s), length s - i)))"
    by (intro wf_inv_image wf_lex_prod wf_less_than)
next
  fix modules :: "'a modules" and agressive :: bool and s :: "nat list" and i :: nat
  assume "i < length s"
  then show "((modules, agressive, s, Suc i), (modules, agressive, s, i))
    \<in> inv_image (less_than <*lex*> less_than)
      (\<lambda>(modules, agressive, s, i). (card (allDependencies modules - set s), length s - i))"
    by simp
next
  fix modules :: "'a modules" and agressive :: bool and s :: "nat list" and i :: nat
    and m :: "'a module"
  assume i: "i < length s" and found: "find_module modules (s ! i) = Some m"
  let ?s' = "add_all s (dependencies m)"
  show "((modules, agressive, ?s', Suc i), (modules, agressive, s, i))
    \<in> inv_image (less_than <*lex*> less_than)
      (\<lambda>(modules, agressive, s, i). (card (allDependencies modules - set s), length s - i))"
  proof (cases "set (dependencies m) \<subseteq> set s")
    case True
    then have "?s' = s" by (rule add_all_same)
    with i show ?thesis by simp
  next
    case False
    then obtain d where d: "d \<in> set (dependencies m)" "d \<notin> set s" by blast
    have sub: "set (dependencies m) \<subseteq> allDependencies modules"
      using found by (rule find_module_dependencies)
    have "allDependencies modules - set ?s' \<subset> allDependencies modules - set s"
      using d sub by (auto simp: set_add_all)
    then have "card (allDependencies modules - set ?s') < card (allDependencies modules - set s)"
      by (intro psubset_card_mono) (simp_all add: finite_allDependencies)
    then show ?thesis by simp
  qed
qed

declare forEachDependency.simps [simp del]

text \<open>
  What one pass returns: the set it was given, then the identifiers it added, each one new
  and a dependency of some module.
\<close>

lemma add_all_new:
  "\<exists>t. add_all s deps = s @ t \<and> set t \<inter> set s = {} \<and> set t \<subseteq> set deps"
proof -
  obtain t where t: "add_all s deps = s @ t" using add_all_prefix by blast
  have "distinct_new": "set t \<inter> set s = {}"
    using t
  proof (induction deps arbitrary: s t)
    case Nil
    then show ?case by (simp add: add_all_def)
  next
    case (Cons d deps)
    obtain u where u: "add_all (set_add s d) deps = set_add s d @ u"
      using add_all_prefix by blast
    have disj: "set u \<inter> set (set_add s d) = {}" using Cons.IH [OF u] .
    have "add_all s (d # deps) = add_all (set_add s d) deps" by (simp add: add_all_def)
    with Cons.prems u have eq: "s @ t = set_add s d @ u" by simp
    show ?case
    proof (cases "d \<in> set s")
      case True
      with eq have "t = u" by (simp add: set_add_def)
      with disj True show ?thesis by (simp add: set_add_def)
    next
      case False
      with eq have "t = d # u" by (simp add: set_add_def)
      with disj False show ?thesis by (auto simp: set_add_def)
    qed
  qed
  have "set t \<subseteq> set s \<union> set deps"
    using set_add_all [of s deps] t by auto
  with distinct_new t show ?thesis by blast
qed

lemma forEachDependency_extends:
  "forEachDependency modules agressive s i = Inr s' \<Longrightarrow>
   \<exists>t. s' = s @ t \<and> set t \<inter> set s = {} \<and> set t \<subseteq> allDependencies modules"
proof (induction modules agressive s i rule: forEachDependency.induct)
  case (1 modules agressive s i)
  show ?case
  proof (cases "i < length s")
    case False
    with "1.prems" show ?thesis
      by (simp add: forEachDependency.simps [of modules agressive s i])
  next
    case True
    show ?thesis
    proof (cases "find_module modules (s ! i)")
      case None
      with True "1.prems" have ag: "agressive" and
        "forEachDependency modules agressive s (Suc i) = Inr s'"
        by (auto simp: forEachDependency.simps [of modules agressive s i] split: if_splits)
      with "1.IH"(1) [OF True None] show ?thesis by simp
    next
      case (Some m)
      let ?s1 = "add_all s (dependencies m)"
      from True Some "1.prems" have "forEachDependency modules agressive ?s1 (Suc i) = Inr s'"
        by (simp add: forEachDependency.simps [of modules agressive s i])
      from "1.IH"(2) [OF True Some this]
      obtain t2 where t2: "s' = ?s1 @ t2" "set t2 \<inter> set ?s1 = {}"
        "set t2 \<subseteq> allDependencies modules" by blast
      obtain t1 where t1: "?s1 = s @ t1" "set t1 \<inter> set s = {}"
        "set t1 \<subseteq> set (dependencies m)" using add_all_new by blast
      have "set t1 \<subseteq> allDependencies modules"
        using t1(3) find_module_dependencies [OF Some] by blast
      moreover have "set t2 \<inter> set s = {}" using t2(2) t1(1) by auto
      ultimately have "s' = s @ (t1 @ t2) \<and> set (t1 @ t2) \<inter> set s = {}
        \<and> set (t1 @ t2) \<subseteq> allDependencies modules"
        using t1 t2 by auto
      then show ?thesis by blast
    qed
  qed
qed

text \<open>
  The loop \<^verbatim>\<open>while (lastDependenciesSize !== entryModuleDependencies.size)\<close>: a pass over
  the set, repeated until a pass adds nothing.
\<close>

function entryClosure ::
  "'ast modules \<Rightarrow> bool \<Rightarrow> nat \<Rightarrow> nat list \<Rightarrow> fatal + nat list" where
  "entryClosure modules agressive lastDependenciesSize s =
     (if lastDependenciesSize \<noteq> length s then
        (case forEachDependency modules agressive s 0 of
           Inl e \<Rightarrow> Inl e
         | Inr s' \<Rightarrow> entryClosure modules agressive (length s) s')
      else Inr s)"
  by pat_completeness auto

termination entryClosure
proof (relation "inv_image (less_than <*lex*> less_than)
    (\<lambda>(modules, agressive, n, s).
       (card (allDependencies modules - set s), if n = length s then 0 else (1::nat)))")
  show "wf (inv_image (less_than <*lex*> less_than)
    (\<lambda>(modules, agressive, n, s).
       (card (allDependencies modules - set s), if n = length s then 0 else (1::nat))))"
    by (intro wf_inv_image wf_lex_prod wf_less_than)
next
  fix modules :: "'a modules" and agressive :: bool and n :: nat and s s' :: "nat list"
  assume n: "n \<noteq> length s" and pass: "forEachDependency modules agressive s 0 = Inr s'"
  obtain t where t: "s' = s @ t" "set t \<inter> set s = {}" "set t \<subseteq> allDependencies modules"
    using forEachDependency_extends [OF pass] by blast
  show "((modules, agressive, length s, s'), (modules, agressive, n, s))
    \<in> inv_image (less_than <*lex*> less_than)
      (\<lambda>(modules, agressive, n, s).
         (card (allDependencies modules - set s), if n = length s then 0 else (1::nat)))"
  proof (cases "t = []")
    case True
    with t n show ?thesis by simp
  next
    case False
    then obtain x where x: "x \<in> set t" by (cases t) auto
    with t have "x \<in> allDependencies modules - set s" "x \<notin> allDependencies modules - set s'"
      by auto
    moreover have "allDependencies modules - set s' \<subseteq> allDependencies modules - set s"
      using t by auto
    ultimately have "allDependencies modules - set s' \<subset> allDependencies modules - set s"
      by blast
    then have "card (allDependencies modules - set s') < card (allDependencies modules - set s)"
      by (intro psubset_card_mono) (simp_all add: finite_allDependencies)
    then show ?thesis by simp
  qed
qed

declare entryClosure.simps [simp del]

text \<open>
  \<^verbatim>\<open>modules.forEach((mod, i) => { if (!entryModuleDependencies.has(mod.moduleId)) delete
  modules[i]; })\<close>
\<close>

definition filterByEntry :: "'ast modules \<Rightarrow> nat list \<Rightarrow> 'ast modules" where
  "filterByEntry modules s =
     map (\<lambda>slot. case slot of
                   None \<Rightarrow> None
                 | Some m \<Rightarrow> if moduleId m \<in> set s then Some m else None) modules"

section \<open>The ignore propagator\<close>

text \<open>
  \<^verbatim>\<open>modules.filter((otherMod) => otherMod.dependencies.includes(mod.moduleId))\<close>: the
  modules that depend on \<open>m\<close>.
\<close>

definition dependentModules :: "'ast modules \<Rightarrow> 'ast module \<Rightarrow> 'ast module list" where
  "dependentModules modules m =
     filter (\<lambda>otherMod. moduleId m \<in> set (dependencies otherMod)) (elements modules)"

text \<open>The predicate of the filter in \<^verbatim>\<open>calculateModulesToIgnore\<close>.\<close>

definition toIgnore :: "'ast modules \<Rightarrow> 'ast module \<Rightarrow> bool" where
  "toIgnore modules m =
     (\<not> ignored m \<and> length (dependentModules modules m) > 0 \<and>
      list_all (\<lambda>otherMod. ignored otherMod \<or> moduleId otherMod \<in> set (dependencies m))
        (dependentModules modules m))"

text \<open>
  \<^verbatim>\<open>calculateModulesToIgnore\<close> assigns the variable \<^verbatim>\<open>modulesToIgnore\<close>, or returns
  early and leaves it as it is: the function takes the variable's value and returns the
  new one.
\<close>

definition calculateModulesToIgnore :: "bool \<Rightarrow> 'ast modules \<Rightarrow> nat list \<Rightarrow> nat list" where
  "calculateModulesToIgnore agressive modules modulesToIgnore =
     (if agressive then modulesToIgnore else filter_indices (toIgnore modules) modules)"

text \<open>\<^verbatim>\<open>modulesToIgnore.forEach((mod) => { mod.ignored = true; })\<close>\<close>

definition markIgnored :: "nat list \<Rightarrow> 'ast modules \<Rightarrow> 'ast modules" where
  "markIgnored modulesToIgnore modules =
     update_slots (\<lambda>m. m\<lparr>ignored := True\<rparr>) modulesToIgnore modules"

text \<open>
  \<^verbatim>\<open>while (modulesToIgnore.length) { ... calculateModulesToIgnore(); }\<close>. Started on a
  list that is not empty, with the aggressive flag set, the loop of the source never ends
  (nothing assigns the list): the value \<open>None\<close>.
\<close>

partial_function (option) ignoreLoop ::
  "bool \<Rightarrow> 'ast modules \<Rightarrow> nat list \<Rightarrow> 'ast modules option" where
  "ignoreLoop agressive modules modulesToIgnore =
     (if modulesToIgnore \<noteq> [] then
        ignoreLoop agressive (markIgnored modulesToIgnore modules)
          (calculateModulesToIgnore agressive (markIgnored modulesToIgnore modules)
             modulesToIgnore)
      else Some modules)"

declare ignoreLoop.simps [code]

text \<open>
  The stage: \<^verbatim>\<open>let modulesToIgnore = []\<close>, the first call of
  \<^verbatim>\<open>calculateModulesToIgnore\<close>, then the loop.
\<close>

definition ignorePropagation :: "bool \<Rightarrow> 'ast modules \<Rightarrow> 'ast modules option" where
  "ignorePropagation agressive modules =
     ignoreLoop agressive modules (calculateModulesToIgnore agressive modules [])"

section \<open>Plugins and the router\<close>

text \<open>
  Modelled from the spec: the plugin families and \<^verbatim>\<open>Router\<close> (\<^verbatim>\<open>./router\<close>,
  \<^verbatim>\<open>./taggers/taggerList\<close>, \<^verbatim>\<open>./editors/editorList\<close>,
  \<^verbatim>\<open>./decompilers/decompilerList\<close> and the base class \<^verbatim>\<open>./moduleFinder\<close> are not
  among the sources). The specification gives a tagger three operations on the current
  module (\<^verbatim>\<open>tagAsNpmModule(packageName)\<close>, \<^verbatim>\<open>tag(name)\<close>, which "adds a classification
  without side effects on ignoring", and \<^verbatim>\<open>ignore(reason)\<close>, which "sets
  \<^verbatim>\<open>ignored=true\<close>"); editors and decompilers rewrite the module's working syntax tree.
  "Plugins may read the module graph" and mutate "only the current module". A plugin is
  the list of operations it performs on the module it is given.
\<close>

datatype 'ast effect =
    TagAsNpmModule js_string
  | Tag js_string
  | Ignore js_string
  | Rewrite "'ast \<Rightarrow> 'ast"

fun applyEffect :: "'ast effect \<Rightarrow> 'ast module \<Rightarrow> 'ast module" where
  "applyEffect (TagAsNpmModule packageName) m = tagAsNpmModule packageName m"
| "applyEffect (Tag name) m =
     m\<lparr>tags := (if name \<in> set (tags m) then tags m else tags m @ [name])\<rparr>"
| "applyEffect (Ignore reason) m = m\<lparr>ignored := True\<rparr>"
| "applyEffect (Rewrite f) m = m\<lparr>moduleCode := map_option f (moduleCode m)\<rparr>"

type_synonym 'ast plugin = "'ast modules \<Rightarrow> 'ast module \<Rightarrow> 'ast effect list"

text \<open>\<^verbatim>\<open>new Router(list, module, modules, ...).parse(module)\<close>\<close>

definition routerParse :: "'ast plugin list \<Rightarrow> 'ast modules \<Rightarrow> 'ast module \<Rightarrow> 'ast module" where
  "routerParse list modules m =
     fold (\<lambda>plugin m. fold applyEffect (plugin modules m) m) list m"

text \<open>\<^verbatim>\<open>BabelModuleFinder\<close> as a plugin of the tagger list.\<close>

definition babelModuleFinder :: "'ast plugin" where
  "babelModuleFinder modules m =
     (if regex_test arraySpreadRegex (originalCode m)
      then [TagAsNpmModule (js ''@babel/runtime/helpers/toConsumableArray'')]
      else [])"

text \<open>
  Modelled from the spec: \<^verbatim>\<open>Module.initalize\<close> (\<^verbatim>\<open>./module\<close> is not among the
  sources): it "sets \<^verbatim>\<open>moduleCode\<close> to a fresh \<^verbatim>\<open>Program\<close> whose body is the factory
  body".
\<close>

definition initalize :: "'ast module \<Rightarrow> 'ast module" where
  "initalize m = m\<lparr>moduleCode := Some (factoryBody m)\<rparr>"

text \<open>
  A callback run on the module of one slot: it reads the array as it is at that moment
  and writes that module.
\<close>

definition onSlot ::
  "('ast modules \<Rightarrow> 'ast module \<Rightarrow> 'ast module) \<Rightarrow> nat \<Rightarrow> 'ast modules \<Rightarrow> 'ast modules" where
  "onSlot f i modules =
     (if i < length modules then
        (case modules ! i of None \<Rightarrow> modules | Some m \<Rightarrow> modules[i := Some (f modules m)])
      else modules)"

section \<open>The command line and the file system\<close>

text \<open>
  \<^verbatim>\<open>argValues\<close>. An option without a type is a string or absent; a \<^verbatim>\<open>Boolean\<close> one is
  set or not; \<^verbatim>\<open>entry\<close> is a module identifier or absent. The names \<open>in\<close> and \<open>out\<close>
  carry a prime, \<open>in\<close> being a word of the logic's syntax.
\<close>

record cmdArgs =
  in' :: "js_string option"
  out' :: "js_string option"
  bundlesFolder :: js_string
  entry :: "nat option"
  performance :: bool
  verbose :: bool
  decompileIgnored :: bool
  agressiveCache :: bool
  noEslint :: bool


definition truthyNumber :: "nat option \<Rightarrow> bool" where
  "truthyNumber v = (case v of None \<Rightarrow> False | Some n \<Rightarrow> n \<noteq> 0)"

definition stringOf :: "js_string option \<Rightarrow> js_string" where
  "stringOf v = (case v of None \<Rightarrow> js ''undefined'' | Some s \<Rightarrow> s)"

text \<open>\<^verbatim>\<open>`${argValues.out}/${argValues.entry ?? 'null'}.cache`\<close>\<close>

definition cacheFileName :: "cmdArgs \<Rightarrow> js_string" where
  "cacheFileName args =
     stringOf (out' args) @ js ''/''
       @ (case entry args of None \<Rightarrow> js ''null'' | Some n \<Rightarrow> numberToString n)
       @ js ''.cache''"

text \<open>
  The file system: the text of each regular file, the listing of each directory as
  \<^verbatim>\<open>readdirSync\<close> returns it at the start of the run, and the paths written so far, the
  latest first. The log tells a file written again with its own text from a file left
  alone, which the file's text cannot.
\<close>

record world =
  files :: "js_string \<rightharpoonup> js_string"
  dirs :: "js_string \<rightharpoonup> js_string list"
  writes :: "js_string list"

definition existsSync :: "world \<Rightarrow> js_string \<Rightarrow> bool" where
  "existsSync w path = (files w path \<noteq> None \<or> dirs w path \<noteq> None)"

definition ioError :: "string \<Rightarrow> js_string \<Rightarrow> fatal" where
  "ioError errno path = Thrown (js errno @ js '': '' @ path)"

definition readFileSync :: "world \<Rightarrow> js_string \<Rightarrow> fatal + js_string" where
  "readFileSync w path =
     (case files w path of
        Some text \<Rightarrow> Inr text
      | None \<Rightarrow> Inl (ioError (if dirs w path \<noteq> None then ''EISDIR'' else ''ENOENT'') path))"

definition writeFileSync :: "js_string \<Rightarrow> js_string \<Rightarrow> world \<Rightarrow> world" where
  "writeFileSync path text w = w\<lparr>files := (files w)(path \<mapsto> text), writes := path # writes w\<rparr>"

definition removeSync :: "js_string \<Rightarrow> world \<Rightarrow> world" where
  "removeSync path w = w\<lparr>files := (files w)(path := None), dirs := (dirs w)(path := None)\<rparr>"


section \<open>The collaborators\<close>

text \<open>
  What \<^verbatim>\<open>babylon.parse\<close> and \<^verbatim>\<open>traverse\<close> find in a text: the calls of \<^verbatim>\<open>__d\<close> the
  visitor reaches, in the order of the visit, each with the arguments the constructor of
  \<^verbatim>\<open>Module\<close> reads.
\<close>

record 'ast registration =
  regModuleId :: nat
  regDependencies :: "nat list"
  regModuleName :: "js_string option"
  regCode :: js_string
  regFactoryBody :: 'ast

text \<open>
  Modelled from the spec: the constructor of \<^verbatim>\<open>Module\<close> (\<^verbatim>\<open>./module\<close> is not among
  the sources). It "records the arguments": the factory, the numeric \<^verbatim>\<open>moduleId\<close>, the
  array of dependencies ("may be absent", then empty) and the optional \<^verbatim>\<open>moduleName\<close>.
  A new module carries no tag and no flag.
\<close>

definition newModule :: "'ast registration \<Rightarrow> 'ast module" where
  "newModule r =
     \<lparr>moduleId = regModuleId r, moduleName = regModuleName r,
      dependencies = regDependencies r, originalCode = regCode r,
      factoryBody = regFactoryBody r, moduleCode = None, tags = [],
      isNpmModule = False, npmModuleName = None, ignored = False\<rparr>"

text \<open>
  The records of the cache file (\<^verbatim>\<open>CachedFile\<close> and its modules, of \<^verbatim>\<open>./cacheModule\<close>,
  which is not among the sources): the fields the sources read, and the tagging results
  the specification lists for a cached module.
\<close>

record cachedModule =
  cachedModuleId :: nat
  cachedOriginalCode :: js_string
  cachedTags :: "js_string list"
  cachedIsNpmModule :: bool
  cachedNpmModuleName :: "js_string option"
  cachedIgnored :: bool

record cachedFile =
  checksum :: js_string
  cachedModules :: "cachedModule list"

text \<open>
  Modelled from the spec: \<^verbatim>\<open>Module.loadCache\<close> (\<^verbatim>\<open>./module\<close> is not among the
  sources). The cache holds "per-module tagging results": the module takes them.
\<close>

definition loadCache :: "cachedModule \<Rightarrow> 'ast module \<Rightarrow> 'ast module" where
  "loadCache cached m =
     m\<lparr>tags := cachedTags cached, isNpmModule := cachedIsNpmModule cached,
       npmModuleName := cachedNpmModuleName cached, ignored := cachedIgnored cached\<rparr>"

text \<open>
  The libraries and the modules of the repository that are not among the sources are
  parameters of the run: the parser with the traversal, the digest, the reader of JSON
  files, \<^verbatim>\<open>path.join\<close>, the three plugin lists, the code printer
  (\<^verbatim>\<open>generator({...}).code\<close> on a module) and the text \<^verbatim>\<open>CacheParse.writeCache\<close> writes.
\<close>

record 'ast collaborators =
  parse :: "js_string \<Rightarrow> fatal + 'ast registration list"
  md5 :: "js_string \<Rightarrow> js_string"
  readJSON :: "js_string \<Rightarrow> fatal + cachedFile"
  pathJoin :: "js_string \<Rightarrow> js_string \<Rightarrow> js_string"
  taggerList :: "'ast plugin list"
  editorList :: "'ast plugin list"
  decompilerList :: "'ast plugin list"
  generator :: "'ast module \<Rightarrow> js_string"
  cacheText :: "js_string \<Rightarrow> 'ast modules \<Rightarrow> js_string"

section \<open>Reading the bundle\<close>





section \<open>The cache file\<close>

text \<open>
  \<^verbatim>\<open>fsExtra.existsSync(cacheFileName) ? fsExtra.readJSONSync(cacheFileName) : undefined\<close>
\<close>

definition readCacheFile ::
  "'ast collaborators \<Rightarrow> cmdArgs \<Rightarrow> world \<Rightarrow> fatal + cachedFile option" where
  "readCacheFile env args w =
     (if existsSync w (cacheFileName args) then
        (case readFileSync w (cacheFileName args) of
           Inl e \<Rightarrow> Inl e
         | Inr text \<Rightarrow> (case readJSON env text of Inl e \<Rightarrow> Inl e | Inr c \<Rightarrow> Inr (Some c)))
      else Inr None)"

text \<open>
  The validation of the cache: the value of \<^verbatim>\<open>cacheFile\<close> after it, and the file
  system.
\<close>

definition validateCache ::
  "'ast collaborators \<Rightarrow> cmdArgs \<Rightarrow> js_string \<Rightarrow> cachedFile option \<Rightarrow> world
     \<Rightarrow> fatal + cachedFile option \<times> world" where
  "validateCache env args inputJsFile cacheFile w =
     (case cacheFile of
        Some c \<Rightarrow>
          if checksum c \<noteq> md5 env inputJsFile
          then Inr (None, removeSync (cacheFileName args) w)
          else Inr (Some c, w)
      | None \<Rightarrow> if agressiveCache args then Inl (Exit 1) else Inr (None, w))"

section \<open>Building the module graph\<close>

text \<open>The visitor of the uncached branch: \<^verbatim>\<open>modules[module.moduleId] = module\<close>.\<close>

definition registerModules ::
  "('ast module \<Rightarrow> 'ast module) \<Rightarrow> 'ast registration list \<Rightarrow> 'ast modules \<Rightarrow> 'ast modules" where
  "registerModules f regs modules =
     fold (\<lambda>r modules. array_set modules (regModuleId r) (f (newModule r))) regs modules"

definition parseModules :: "'ast collaborators \<Rightarrow> js_string \<Rightarrow> fatal + 'ast modules" where
  "parseModules env inputJsFile =
     (case parse env inputJsFile of
        Inl e \<Rightarrow> Inl e
      | Inr regs \<Rightarrow> Inr (registerModules (\<lambda>m. m) regs []))"

text \<open>The cached branch.\<close>

definition validCachedModules :: "bool \<Rightarrow> cachedModule list \<Rightarrow> cachedModule list" where
  "validCachedModules agressive cms =
     filter (\<lambda>cachedModule.
        \<not> agressive \<or> \<not> cachedIgnored cachedModule \<or> cachedIsNpmModule cachedModule) cms"

definition canIgnoreModuleBody :: "bool \<Rightarrow> cachedModule \<Rightarrow> bool" where
  "canIgnoreModuleBody agressive cached =
     (agressive \<and> cachedIsNpmModule cached \<and> length (cachedOriginalCode cached) > 128)"

text \<open>\<^verbatim>\<open>`__d(function(g,r,i,a,m,e,d){},${cached.moduleId},[])`\<close>\<close>

definition emptyFactory :: "nat \<Rightarrow> js_string" where
  "emptyFactory mid =
     js ''__d(function(g,r,i,a,m,e,d){},'' @ numberToString mid @ js '',[])''"

definition cachedSource :: "bool \<Rightarrow> cachedModule \<Rightarrow> js_string" where
  "cachedSource agressive cached =
     (if canIgnoreModuleBody agressive cached then emptyFactory (cachedModuleId cached)
      else cachedOriginalCode cached)"

fun loadCachedModules ::
  "'ast collaborators \<Rightarrow> bool \<Rightarrow> cachedModule list \<Rightarrow> 'ast modules \<Rightarrow> fatal + 'ast modules" where
  "loadCachedModules env agressive [] modules = Inr modules"
| "loadCachedModules env agressive (cached # rest) modules =
     (case parse env (cachedSource agressive cached) of
        Inl e \<Rightarrow> Inl e
      | Inr regs \<Rightarrow>
          loadCachedModules env agressive rest (registerModules (loadCache cached) regs modules))"

definition buildModules ::
  "'ast collaborators \<Rightarrow> cmdArgs \<Rightarrow> cachedFile option \<Rightarrow> js_string \<Rightarrow> fatal + 'ast modules" where
  "buildModules env args cacheFile inputJsFile =
     (case cacheFile of
        Some c \<Rightarrow>
          loadCachedModules env (agressiveCache args)
            (validCachedModules (agressiveCache args) (cachedModules c)) []
      | None \<Rightarrow> parseModules env inputJsFile)"

section \<open>The stages of the run\<close>

text \<open>
  \<^verbatim>\<open>if (argValues.entry != null && (!argValues.agressiveCache || !cacheFile))\<close>
\<close>

definition entryFilterRuns :: "cmdArgs \<Rightarrow> cachedFile option \<Rightarrow> bool" where
  "entryFilterRuns args cacheFile =
     (entry args \<noteq> None \<and> (\<not> agressiveCache args \<or> cacheFile = None))"

definition entryStage ::
  "cmdArgs \<Rightarrow> cachedFile option \<Rightarrow> 'ast modules \<Rightarrow> fatal + 'ast modules" where
  "entryStage args cacheFile modules =
     (if entryFilterRuns args cacheFile then
        (case entryClosure modules (agressiveCache args) 0 [the (entry args)] of
           Inl e \<Rightarrow> Inl e
         | Inr entryModuleDependencies \<Rightarrow> Inr (filterByEntry modules entryModuleDependencies))
      else Inr modules)"

text \<open>\<^verbatim>\<open>modules.filter((mod) => argValues.decompileIgnored || !mod.ignored)\<close>\<close>

definition nonIgnoredModules :: "cmdArgs \<Rightarrow> 'ast modules \<Rightarrow> nat list" where
  "nonIgnoredModules args modules =
     filter_indices (\<lambda>m. decompileIgnored args \<or> \<not> ignored m) modules"

definition preParseStage :: "cmdArgs \<Rightarrow> 'ast modules \<Rightarrow> 'ast modules" where
  "preParseStage args modules =
     fold (onSlot (\<lambda>modules. initalize)) (nonIgnoredModules args modules) modules"

definition taggingStage :: "'ast collaborators \<Rightarrow> nat list \<Rightarrow> 'ast modules \<Rightarrow> 'ast modules" where
  "taggingStage env nonIgnored modules =
     fold (onSlot (routerParse (taggerList env))) nonIgnored modules"

definition decompileStage :: "'ast collaborators \<Rightarrow> nat list \<Rightarrow> 'ast modules \<Rightarrow> 'ast modules" where
  "decompileStage env nonIgnored modules =
     fold (\<lambda>i modules.
        onSlot (routerParse (decompilerList env)) i
          (onSlot (routerParse (editorList env)) i modules)) nonIgnored modules"

text \<open>
  \<^verbatim>\<open>generatedFiles\<close>: the name and the code of each module of \<^verbatim>\<open>nonIgnoredModules\<close>,
  the array filtered before the decompiling, whose modules are read as the decompiling
  left them.
\<close>

definition modulesAt :: "nat list \<Rightarrow> 'a option list \<Rightarrow> 'a list" where
  "modulesAt idxs xs =
     concat (map (\<lambda>i. if i < length xs
                       then (case xs ! i of None \<Rightarrow> [] | Some x \<Rightarrow> [x]) else []) idxs)"

definition generatedFiles ::
  "'ast collaborators \<Rightarrow> nat list \<Rightarrow> 'ast modules \<Rightarrow> (nat \<times> js_string) list" where
  "generatedFiles env nonIgnored modules =
     map (\<lambda>m. (moduleId m, generator env m)) (modulesAt nonIgnored modules)"

text \<open>The body of the saving loop, for one generated file.\<close>

definition outputPath :: "cmdArgs \<Rightarrow> nat \<Rightarrow> js_string" where
  "outputPath args name = stringOf (out' args) @ js ''/'' @ numberToString name @ js ''.js''"

definition saveFile :: "cmdArgs \<Rightarrow> nat \<times> js_string \<Rightarrow> world \<Rightarrow> fatal + world" where
  "saveFile args file w =
     (if \<not> existsSync w (outputPath args (fst file)) then
        Inr (writeFileSync (outputPath args (fst file)) (snd file) w)
      else
        (case readFileSync w (outputPath args (fst file)) of
           Inl e \<Rightarrow> Inl e
         | Inr text \<Rightarrow>
             if text \<noteq> snd file
             then Inr (writeFileSync (outputPath args (fst file)) (snd file) w)
             else Inr w))"

fun saveFiles :: "cmdArgs \<Rightarrow> (nat \<times> js_string) list \<Rightarrow> world \<Rightarrow> fatal + world" where
  "saveFiles args [] w = Inr w"
| "saveFiles args (file # rest) w =
     (case saveFile args file w of Inl e \<Rightarrow> Inl e | Inr w' \<Rightarrow> saveFiles args rest w')"

text \<open>
  \<^verbatim>\<open>if (argValues.entry && !argValues.agressiveCache)\<close>, with
  \<^verbatim>\<open>CacheParse.writeCache\<close> taken as one write of the cache file.
\<close>

definition cacheIsWritten :: "cmdArgs \<Rightarrow> bool" where
  "cacheIsWritten args = (truthyNumber (entry args) \<and> \<not> agressiveCache args)"

definition writeCacheStage ::
  "'ast collaborators \<Rightarrow> cmdArgs \<Rightarrow> js_string \<Rightarrow> 'ast modules \<Rightarrow> world \<Rightarrow> world" where
  "writeCacheStage env args inputJsFile modules w =
     (if cacheIsWritten args
      then writeFileSync (cacheFileName args) (cacheText env inputJsFile modules) w
      else w)"

section \<open>The run\<close>

text \<open>
  The states of the module graph after each stage of a run that reaches its end, and the
  file system it leaves. The pass of ESLint over the output folder, which the source
  starts last, is no part of the run.
\<close>

record 'ast run =
  afterEntryFilter :: "'ast modules"
  afterPreParse :: "'ast modules"
  afterTagging :: "'ast modules"
  afterPropagation :: "'ast modules"
  afterDecompile :: "'ast modules"
  finalWorld :: world

text \<open>From the entry filter to the cache. \<open>None\<close>: the run never ends.\<close>

definition pipeline ::
  "'ast collaborators \<Rightarrow> cmdArgs \<Rightarrow> js_string \<Rightarrow> cachedFile option \<Rightarrow> 'ast modules \<Rightarrow> world
     \<Rightarrow> (fatal + 'ast run) option" where
  "pipeline env args inputJsFile cacheFile modules w =
     (case entryStage args cacheFile modules of
        Inl e \<Rightarrow> Some (Inl e)
      | Inr modules1 \<Rightarrow>
          (let nonIgnored = nonIgnoredModules args modules1;
               modules2 = preParseStage args modules1;
               modules3 = taggingStage env nonIgnored modules2
           in case ignorePropagation (agressiveCache args) modules3 of
                None \<Rightarrow> None
              | Some modules4 \<Rightarrow>
                  (let nonIgnored' = nonIgnoredModules args modules4;
                       modules5 = decompileStage env nonIgnored' modules4
                   in case saveFiles args (generatedFiles env nonIgnored' modules5) w of
                        Inl e \<Rightarrow> Some (Inl e)
                      | Inr w' \<Rightarrow>
                          Some (Inr \<lparr>afterEntryFilter = modules1, afterPreParse = modules2,
                            afterTagging = modules3, afterPropagation = modules4,
                            afterDecompile = modules5,
                            finalWorld = writeCacheStage env args inputJsFile modules5 w'\<rparr>))))"

text \<open>From the cache file to the end, the text of the bundle being read.\<close>

definition runWithInput ::
  "'ast collaborators \<Rightarrow> cmdArgs \<Rightarrow> js_string \<Rightarrow> world \<Rightarrow> (fatal + 'ast run) option" where
  "runWithInput env args inputJsFile w =
     (case readCacheFile env args w of
        Inl e \<Rightarrow> Some (Inl e)
      | Inr cacheFile0 \<Rightarrow>
          (case validateCache env args inputJsFile cacheFile0 w of
             Inl e \<Rightarrow> Some (Inl e)
           | Inr (cacheFile, w') \<Rightarrow>
               (case buildModules env args cacheFile inputJsFile of
                  Inl e \<Rightarrow> Some (Inl e)
                | Inr modules \<Rightarrow>
                    if length modules = 0 then Some (Inl (Exit 1))
                    else pipeline env args inputJsFile cacheFile modules w')))"


section \<open>Reachability in the module graph\<close>

text \<open>
  The relation the entry filter closes: \<open>a\<close> depends on \<open>b\<close> when the module that a lookup
  of \<open>a\<close> finds lists \<open>b\<close> among its dependencies. \<open>reachable\<close> is its reflexive and
  transitive closure.
\<close>

definition dependsOn :: "'ast modules \<Rightarrow> nat \<Rightarrow> nat \<Rightarrow> bool" where
  "dependsOn modules a b =
     (case find_module modules a of None \<Rightarrow> False | Some m \<Rightarrow> b \<in> set (dependencies m))"

definition reachable :: "'ast modules \<Rightarrow> nat \<Rightarrow> nat \<Rightarrow> bool" where
  "reachable modules = (dependsOn modules)\<^sup>*\<^sup>*"

text \<open>
  A visited identifier is settled in a set: its module is found and its dependencies are
  in the set, or no module is found and the mode lets the pass go on.
\<close>

definition visited_ok :: "'ast modules \<Rightarrow> bool \<Rightarrow> nat list \<Rightarrow> nat \<Rightarrow> bool" where
  "visited_ok modules agressive s x =
     (case find_module modules x of
        None \<Rightarrow> agressive
      | Some m \<Rightarrow> set (dependencies m) \<subseteq> set s)"


section \<open>The ignore propagator, as the specification words it\<close>

text \<open>
  The specification's predicate of a round: "every non-ignored, non-NPM module \<open>m\<close> such
  that \<open>m\<close> has at least one reverse dependent and every reverse dependent is either
  already ignored or is also depended on by \<open>m\<close>".
\<close>

definition specToIgnore :: "'ast modules \<Rightarrow> 'ast module \<Rightarrow> bool" where
  "specToIgnore modules m =
     (\<not> ignored m \<and> \<not> isNpmModule m \<and>
      (\<exists>otherMod \<in> set (elements modules). moduleId m \<in> set (dependencies otherMod)) \<and>
      (\<forall>otherMod \<in> set (elements modules).
         moduleId m \<in> set (dependencies otherMod) \<longrightarrow>
         ignored otherMod \<or> moduleId otherMod \<in> set (dependencies m)))"

text \<open>One round: the modules that satisfy the source's predicate become ignored.\<close>

definition ignoreRound :: "'ast modules \<Rightarrow> 'ast modules" where
  "ignoreRound modules =
     map (map_option (\<lambda>m. if toIgnore modules m then m\<lparr>ignored := True\<rparr> else m)) modules"

text \<open>
  How a later state of the graph may differ from an earlier one if no module is taken
  out of the ignored ones: slot by slot, a module stays in its slot or the slot is
  emptied, and a module that was ignored still is.
\<close>

definition staysIgnored :: "'ast module option \<Rightarrow> 'ast module option \<Rightarrow> bool" where
  "staysIgnored before after =
     (case (before, after) of
        (Some m, Some m') \<Rightarrow> ignored m \<longrightarrow> ignored m'
      | (None, Some m') \<Rightarrow> False
      | (_, None) \<Rightarrow> True)"

definition ignoredPreserved :: "'ast modules \<Rightarrow> 'ast modules \<Rightarrow> bool" where
  "ignoredPreserved before after = list_all2 staysIgnored before after"

text \<open>
  The graph the entry filter leaves when it keeps the modules whose identifier is
  reachable from the entry, and empties the other slots.
\<close>

definition keepReachable :: "'ast modules \<Rightarrow> nat \<Rightarrow> 'ast modules" where
  "keepReachable modules e =
     map (\<lambda>slot. case slot of
                   None \<Rightarrow> None
                 | Some m \<Rightarrow> if reachable modules e (moduleId m) then Some m else None) modules"

text \<open>
  The graph as the driver builds it, by \<^verbatim>\<open>modules[module.moduleId] = module\<close>: the module
  of a slot carries the index of the slot as its identifier.
\<close>

definition slotsById :: "'ast modules \<Rightarrow> bool" where
  "slotsById modules =
     (\<forall>i < length modules. case modules ! i of None \<Rightarrow> True | Some m \<Rightarrow> moduleId m = i)"

section \<open>Concrete inputs\<close>

text \<open>
  Scenario S2 of the specification: module 5 is the minified array-spread helper. The
  syntax trees play no part in the examples: they are of type \<open>unit\<close>.
\<close>

definition helperCode :: js_string where
  "helperCode = js ''__d(function(g,r,i,a,m,e,d){var t=r(d[0]),n=r(d[1]),o=r(d[2]),u=r(d[3]);m.exports=function(c){return t(c)||n(c)||o(c)||u();};},5,[6,7,8,9])''"

definition helperModule :: "unit module" where
  "helperModule =
     \<lparr>moduleId = 5, moduleName = None, dependencies = [6, 7, 8, 9],
      originalCode = helperCode, factoryBody = (), moduleCode = None, tags = [],
      isNpmModule = False, npmModuleName = None, ignored = False\<rparr>"

text \<open>Scenario S1: a module that exports a constant.\<close>

definition constantCode :: js_string where
  "constantCode = js ''__d(function(g,r,i,a,m,e,d){m.exports=42;},0,[])''"

definition constantModule :: "unit module" where
  "constantModule =
     \<lparr>moduleId = 0, moduleName = None, dependencies = [],
      originalCode = constantCode, factoryBody = (), moduleCode = None, tags = [],
      isNpmModule = False, npmModuleName = None, ignored = False\<rparr>"

text \<open>
  A module of the examples, by its identifier, its dependencies and its two flags; an NPM
  module carries the name of the helper.
\<close>

definition exampleModule :: "nat \<Rightarrow> nat list \<Rightarrow> bool \<Rightarrow> bool \<Rightarrow> unit module" where
  "exampleModule mid deps npm ign =
     \<lparr>moduleId = mid, moduleName = None, dependencies = deps,
      originalCode = [], factoryBody = (), moduleCode = None, tags = [],
      isNpmModule = npm,
      npmModuleName = (if npm then Some (js ''@babel/runtime/helpers/toConsumableArray'') else None),
      ignored = ign\<rparr>"

text \<open>
  A chain: the ignored NPM module 0 depends on module 1, which depends on module 2.
\<close>

definition chainGraph :: "unit modules" where
  "chainGraph =
     [Some (exampleModule 0 [1] True True), Some (exampleModule 1 [2] False False),
      Some (exampleModule 2 [] False False)]"

text \<open>An NPM module that is not ignored, and an ignored module that depends on it.\<close>

definition npmGraph :: "unit modules" where
  "npmGraph = [Some (exampleModule 0 [1] False True), Some (exampleModule 1 [] True False)]"

text \<open>
  Scenario S4: module 1 depends on module 2, module 2 on module 3. Slot 0 is a hole. In
  the second graph module 1 depends on a module 5 that the graph does not have.
\<close>

definition s4Graph :: "unit modules" where
  "s4Graph =
     [None, Some (exampleModule 1 [2] False False), Some (exampleModule 2 [3] False False),
      Some (exampleModule 3 [] False False)]"

definition danglingGraph :: "unit modules" where
  "danglingGraph = [None, Some (exampleModule 1 [5] False False)]"

text \<open>
  The command line of the examples: the entry and the two flags that differ between
  them.
\<close>

definition exampleArgs :: "nat option \<Rightarrow> bool \<Rightarrow> bool \<Rightarrow> cmdArgs" where
  "exampleArgs e agressive ign =
     \<lparr>in' = Some (js ''index.android.bundle''), out' = Some (js ''out''),
      bundlesFolder = js ''./js-modules'', entry = e, performance = False, verbose = False,
      decompileIgnored = ign, agressiveCache = agressive, noEslint = True\<rparr>"

definition emptyCache :: cachedFile where
  "emptyCache = \<lparr>checksum = js ''00'', cachedModules = []\<rparr>"

text \<open>
  A bundle of two modules: module 0 requires module 1, which exports a constant.
\<close>

definition appCode :: js_string where
  "appCode = js ''__d(function(g,r,i,a,m,e,d){r(d[0]);},0,[1])''"

definition libCode :: js_string where
  "libCode = js ''__d(function(g,r,i,a,m,e,d){m.exports=42;},1,[])''"

definition exampleBundle :: js_string where
  "exampleBundle = appCode @ [0x0A] @ libCode"

definition exampleRegistration :: "nat \<Rightarrow> nat list \<Rightarrow> js_string \<Rightarrow> unit registration" where
  "exampleRegistration mid deps code =
     \<lparr>regModuleId = mid, regDependencies = deps, regModuleName = None, regCode = code,
      regFactoryBody = ()\<rparr>"

text \<open>
  The collaborators of the examples. The parser knows the texts of the examples, and
  what the parser of the source finds in each: the calls of \<^verbatim>\<open>__d\<close>, none in a script
  without one; any other text is a syntax error to it. The digest is a stand-in, the
  length of the text in decimal digits. A cache file holds one word, which names its
  record.
\<close>

definition exampleSources :: "(js_string \<times> unit registration list) list" where
  "exampleSources =
     [(exampleBundle, [exampleRegistration 0 [1] appCode, exampleRegistration 1 [] libCode]),
      (appCode, [exampleRegistration 0 [1] appCode]),
      (libCode, [exampleRegistration 1 [] libCode]),
      (helperCode, [exampleRegistration 5 [6, 7, 8, 9] helperCode]),
      (emptyFactory 5, [exampleRegistration 5 [] (emptyFactory 5)]),
      (js ''var x = 1;'', [])]"

definition exampleParse :: "js_string \<Rightarrow> fatal + unit registration list" where
  "exampleParse text =
     (case map_of exampleSources text of
        Some regs \<Rightarrow> Inr regs
      | None \<Rightarrow> Inl (Thrown (js ''SyntaxError'')))"

definition cachedApp :: cachedModule where
  "cachedApp =
     \<lparr>cachedModuleId = 0, cachedOriginalCode = appCode, cachedTags = [],
      cachedIsNpmModule = False, cachedNpmModuleName = None, cachedIgnored = False\<rparr>"

definition cachedLib :: cachedModule where
  "cachedLib =
     \<lparr>cachedModuleId = 1, cachedOriginalCode = libCode, cachedTags = [],
      cachedIsNpmModule = False, cachedNpmModuleName = None, cachedIgnored = True\<rparr>"

definition cachedHelper :: cachedModule where
  "cachedHelper =
     \<lparr>cachedModuleId = 5, cachedOriginalCode = helperCode, cachedTags = [],
      cachedIsNpmModule = True,
      cachedNpmModuleName = Some (js ''@babel/runtime/helpers/toConsumableArray''),
      cachedIgnored = True\<rparr>"

definition exampleCache :: "js_string \<Rightarrow> cachedFile" where
  "exampleCache digest = \<lparr>checksum = digest, cachedModules = [cachedApp, cachedLib, cachedHelper]\<rparr>"

definition exampleReadJSON :: "js_string \<Rightarrow> fatal + cachedFile" where
  "exampleReadJSON text =
     (if text = js ''valid'' then Inr (exampleCache (numberToString (length exampleBundle)))
      else if text = js ''stale'' then Inr (exampleCache (js ''0''))
      else Inl (Thrown (js ''SyntaxError'')))"

definition exampleEnv :: "unit collaborators" where
  "exampleEnv =
     \<lparr>parse = exampleParse,
      md5 = (\<lambda>text. numberToString (length text)),
      readJSON = exampleReadJSON,
      pathJoin = (\<lambda>dir file. dir @ js ''/'' @ file),
      taggerList = [babelModuleFinder],
      editorList = [],
      decompilerList = [],
      generator = (\<lambda>m. js ''export default 42;''),
      cacheText = (\<lambda>inputJsFile modules. js ''valid'')\<rparr>"

text \<open>
  A file system with the bundle, and with a cache file of the given text for a run
  without entry.
\<close>

definition bundleWorld :: world where
  "bundleWorld =
     \<lparr>files = [js ''index.android.bundle'' \<mapsto> exampleBundle], dirs = Map.empty, writes = []\<rparr>"

definition cachedWorld :: "js_string \<Rightarrow> world" where
  "cachedWorld text =
     \<lparr>files = [js ''index.android.bundle'' \<mapsto> exampleBundle, js ''out/null.cache'' \<mapsto> text],
      dirs = Map.empty, writes = []\<rparr>"


section \<open>The entry closure computes reachability\<close>

lemma visited_ok_mono:
  "visited_ok modules agressive s x \<Longrightarrow> set s \<subseteq> set t \<Longrightarrow> visited_ok modules agressive t x"
  by (auto simp: visited_ok_def split: option.splits)

lemma forEachDependency_visited:
  "forEachDependency modules agressive s i = Inr s' \<Longrightarrow>
   (\<And>j. j < i \<Longrightarrow> j < length s \<Longrightarrow> visited_ok modules agressive s (s ! j)) \<Longrightarrow>
   x \<in> set s' \<Longrightarrow> visited_ok modules agressive s' x"
proof (induction modules agressive s i rule: forEachDependency.induct)
  case (1 modules agressive s i)
  note unfold = forEachDependency.simps [of modules agressive s i]
  show ?case
  proof (cases "i < length s")
    case False
    with "1.prems"(1) have "s' = s" by (simp add: unfold)
    with "1.prems"(2,3) False show ?thesis
      by (metis in_set_conv_nth leI less_le_trans)
  next
    case True
    show ?thesis
    proof (cases "find_module modules (s ! i)")
      case None
      with True "1.prems"(1) have ag: "agressive" and
        run: "forEachDependency modules agressive s (Suc i) = Inr s'"
        by (auto simp: unfold split: if_splits)
      have "visited_ok modules agressive s (s ! j)" if "j < Suc i" "j < length s" for j
      proof (cases "j = i")
        case True
        with None ag show ?thesis by (simp add: visited_ok_def)
      next
        case False
        with that "1.prems"(2) show ?thesis by simp
      qed
      with "1.IH"(1) [OF True None _ run _ "1.prems"(3)] ag show ?thesis by simp
    next
      case (Some m)
      let ?s1 = "add_all s (dependencies m)"
      from True Some "1.prems"(1) have run: "forEachDependency modules agressive ?s1 (Suc i) = Inr s'"
        by (simp add: unfold)
      obtain t where t: "?s1 = s @ t" using add_all_prefix by blast
      have "visited_ok modules agressive ?s1 (?s1 ! j)" if "j < Suc i" "j < length ?s1" for j
      proof (cases "j = i")
        case True
        with \<open>i < length s\<close> t have "?s1 ! j = s ! i" by (simp add: nth_append)
        with Some show ?thesis by (simp add: visited_ok_def set_add_all)
      next
        case False
        with that \<open>i < length s\<close> have j: "j < i" "j < length s" by simp_all
        with t have "?s1 ! j = s ! j" by (simp add: nth_append)
        moreover have "visited_ok modules agressive s (s ! j)" using "1.prems"(2) j by simp
        ultimately show ?thesis
          using visited_ok_mono [of modules agressive s "s ! j" ?s1] by (simp add: set_add_all)
      qed
      with "1.IH"(2) [OF True Some run _ "1.prems"(3)] show ?thesis by simp
    qed
  qed
qed

lemma reachable_step:
  "reachable modules e a \<Longrightarrow> find_module modules a = Some m \<Longrightarrow> b \<in> set (dependencies m) \<Longrightarrow>
   reachable modules e b"
  unfolding reachable_def
  by (erule rtranclp.rtrancl_into_rtrancl) (simp add: dependsOn_def)

lemma forEachDependency_reachable:
  "forEachDependency modules agressive s i = Inr s' \<Longrightarrow>
   (\<And>x. x \<in> set s \<Longrightarrow> reachable modules e x) \<Longrightarrow>
   x \<in> set s' \<Longrightarrow> reachable modules e x"
proof (induction modules agressive s i rule: forEachDependency.induct)
  case (1 modules agressive s i)
  note unfold = forEachDependency.simps [of modules agressive s i]
  show ?case
  proof (cases "i < length s")
    case False
    with "1.prems" show ?thesis by (simp add: unfold)
  next
    case True
    show ?thesis
    proof (cases "find_module modules (s ! i)")
      case None
      with True "1.prems"(1) have ag: "agressive" and
        run: "forEachDependency modules agressive s (Suc i) = Inr s'"
        by (auto simp: unfold split: if_splits)
      with "1.IH"(1) [OF True None _ run "1.prems"(2,3)] show ?thesis by simp
    next
      case (Some m)
      let ?s1 = "add_all s (dependencies m)"
      from True Some "1.prems"(1) have run: "forEachDependency modules agressive ?s1 (Suc i) = Inr s'"
        by (simp add: unfold)
      have "reachable modules e y" if "y \<in> set ?s1" for y
      proof (cases "y \<in> set s")
        case True
        then show ?thesis by (rule "1.prems"(2))
      next
        case False
        with that have "y \<in> set (dependencies m)" by (simp add: set_add_all)
        moreover have "reachable modules e (s ! i)" using True "1.prems"(2) by simp
        ultimately show ?thesis using Some reachable_step by blast
      qed
      with "1.IH"(2) [OF True Some run _ "1.prems"(3)] show ?thesis by simp
    qed
  qed
qed

lemma forEachDependency_throws:
  "forEachDependency modules agressive s i = Inl e \<Longrightarrow>
   (\<And>x. x \<in> set s \<Longrightarrow> reachable modules en x) \<Longrightarrow>
   \<not> agressive \<and> (\<exists>x. reachable modules en x \<and> find_module modules x = None
      \<and> e = missingDependency x)"
proof (induction modules agressive s i rule: forEachDependency.induct)
  case (1 modules agressive s i)
  note unfold = forEachDependency.simps [of modules agressive s i]
  show ?case
  proof (cases "i < length s")
    case False
    with "1.prems" show ?thesis by (simp add: unfold)
  next
    case True
    show ?thesis
    proof (cases "find_module modules (s ! i)")
      case None
      show ?thesis
      proof (cases agressive)
        case False
        have "e = missingDependency (s ! i)"
          using "1.prems"(1) unfolding unfold using True None False by simp
        moreover have "reachable modules en (s ! i)" using True "1.prems"(2) by simp
        ultimately show ?thesis using None False by blast
      next
        case ag: True
        have run: "forEachDependency modules agressive s (Suc i) = Inl e"
          using "1.prems"(1) unfolding unfold using True None ag by simp
        from "1.IH"(1) [OF True None _ run "1.prems"(2)] ag show ?thesis by simp
      qed
    next
      case (Some m)
      let ?s1 = "add_all s (dependencies m)"
      from True Some "1.prems"(1) have run: "forEachDependency modules agressive ?s1 (Suc i) = Inl e"
        by (simp add: unfold)
      have "reachable modules en y" if "y \<in> set ?s1" for y
      proof (cases "y \<in> set s")
        case True
        then show ?thesis by (rule "1.prems"(2))
      next
        case False
        with that have "y \<in> set (dependencies m)" by (simp add: set_add_all)
        moreover have "reachable modules en (s ! i)" using True "1.prems"(2) by simp
        ultimately show ?thesis using Some reachable_step by blast
      qed
      with "1.IH"(2) [OF True Some run] show ?thesis by simp
    qed
  qed
qed

lemma forEachDependency_second_pass:
  "(\<And>x. x \<in> set s \<Longrightarrow> visited_ok modules agressive s x) \<Longrightarrow>
   forEachDependency modules agressive s i = Inr s"
proof (induction "length s - i" arbitrary: i)
  case 0
  then show ?case by (simp add: forEachDependency.simps [of modules agressive s i])
next
  case (Suc n)
  then have i: "i < length s" and n: "n = length s - Suc i" by simp_all
  have ok: "visited_ok modules agressive s (s ! i)" using Suc.prems i by simp
  have next_pass: "forEachDependency modules agressive s (Suc i) = Inr s"
    using Suc.hyps(1) [OF n Suc.prems] by simp
  show ?case
  proof (cases "find_module modules (s ! i)")
    case None
    with ok have ag: "agressive" by (simp add: visited_ok_def)
    show ?thesis
      unfolding forEachDependency.simps [of modules agressive s i]
      using None i next_pass ag by simp
  next
    case (Some m)
    with ok have "add_all s (dependencies m) = s"
      by (simp add: visited_ok_def add_all_same)
    with Some i next_pass show ?thesis
      by (simp add: forEachDependency.simps [of modules agressive s i])
  qed
qed

lemma entryClosure_closed:
  "(\<And>x. x \<in> set s \<Longrightarrow> visited_ok modules agressive s x) \<Longrightarrow>
   entryClosure modules agressive n s = Inr s"
  by (simp add: entryClosure.simps [of modules agressive n s]
      entryClosure.simps [of modules agressive "length s" s] forEachDependency_second_pass)

lemma entryClosure_first_pass:
  "entryClosure modules agressive 0 [e] =
     (case forEachDependency modules agressive [e] 0 of Inl err \<Rightarrow> Inl err | Inr s \<Rightarrow> Inr s)"
proof (cases "forEachDependency modules agressive [e] 0")
  case (Inl err)
  then show ?thesis by (simp add: entryClosure.simps [of modules agressive 0 "[e]"])
next
  case (Inr s)
  have "visited_ok modules agressive s x" if "x \<in> set s" for x
    using forEachDependency_visited [OF Inr _ that] by simp
  then have "entryClosure modules agressive (length [e]) s = Inr s"
    by (rule entryClosure_closed)
  with Inr show ?thesis by (simp add: entryClosure.simps [of modules agressive 0 "[e]"])
qed

lemma closed_contains_reachable:
  assumes "reachable modules e x" and "e \<in> set s"
    and "\<And>y. y \<in> set s \<Longrightarrow> visited_ok modules agressive s y"
  shows "x \<in> set s"
  using assms(1) unfolding reachable_def
proof (induction rule: rtranclp_induct)
  case base
  then show ?case by (rule assms(2))
next
  case (step a b)
  from step.hyps(2) obtain m where "find_module modules a = Some m" "b \<in> set (dependencies m)"
    by (auto simp: dependsOn_def split: option.splits)
  with assms(3) [OF step.IH] show ?case by (auto simp: visited_ok_def)
qed

lemma entryClosure_Inr:
  assumes "entryClosure modules agressive 0 [e] = Inr s"
  shows "set s = {x. reachable modules e x}"
    and "\<not> agressive \<Longrightarrow> reachable modules e x \<Longrightarrow> find_module modules x \<noteq> None"
proof -
  from assms have pass: "forEachDependency modules agressive [e] 0 = Inr s"
    by (simp add: entryClosure_first_pass split: sum.splits)
  have ok: "visited_ok modules agressive s y" if "y \<in> set s" for y
    using forEachDependency_visited [OF pass _ that] by simp
  have reach: "reachable modules e y" if "y \<in> set s" for y
    using forEachDependency_reachable [OF pass _ that] by (simp add: reachable_def)
  obtain t where "s = [e] @ t" using forEachDependency_extends [OF pass] by blast
  then have e: "e \<in> set s" by simp
  show "set s = {x. reachable modules e x}"
    using reach closed_contains_reachable [OF _ e ok] by blast
  show "find_module modules x \<noteq> None" if "\<not> agressive" "reachable modules e x"
  proof -
    have "x \<in> set s" using closed_contains_reachable [OF that(2) e ok] by blast
    from ok [OF this] that(1) show ?thesis by (auto simp: visited_ok_def split: option.splits)
  qed
qed

lemma entryClosure_Inl:
  assumes "entryClosure modules agressive 0 [e] = Inl err"
  shows "\<not> agressive \<and> (\<exists>x. reachable modules e x \<and> find_module modules x = None
      \<and> err = missingDependency x)"
proof -
  from assms have pass: "forEachDependency modules agressive [e] 0 = Inl err"
    by (simp add: entryClosure_first_pass split: sum.splits)
  show ?thesis
    using forEachDependency_throws [OF pass, of e] by (simp add: reachable_def)
qed

section \<open>The Babel fingerprint tagger\<close>

text \<open>
  The test of the regular expression is a search for a stretch of the text that the
  atoms match one by one.
\<close>

lemma match_here_iff:
  "match_here r s \<longleftrightarrow> length r \<le> length s \<and> list_all2 atom_matches r (take (length r) s)"
  by (induction r s rule: match_here.induct) auto

lemma regex_test_iff:
  "regex_test r s \<longleftrightarrow> (\<exists>pre mid post. s = pre @ mid @ post \<and> list_all2 atom_matches r mid)"
proof (induction s)
  case Nil
  then show ?case by (cases r) auto
next
  case (Cons c cs)
  have here: "match_here r (c # cs) \<longleftrightarrow> (\<exists>mid post. c # cs = mid @ post \<and> list_all2 atom_matches r mid)"
  proof
    assume "match_here r (c # cs)"
    then have "length r \<le> length (c # cs)"
      "list_all2 atom_matches r (take (length r) (c # cs))"
      by (simp_all only: match_here_iff)
    moreover have "c # cs = take (length r) (c # cs) @ drop (length r) (c # cs)" by simp
    ultimately show "\<exists>mid post. c # cs = mid @ post \<and> list_all2 atom_matches r mid" by blast
  next
    assume "\<exists>mid post. c # cs = mid @ post \<and> list_all2 atom_matches r mid"
    then obtain mid post where mp: "c # cs = mid @ post" "list_all2 atom_matches r mid" by blast
    then have "length r = length mid" by (simp add: list_all2_lengthD)
    with mp show "match_here r (c # cs)" by (simp add: match_here_iff)
  qed
  show ?case
  proof
    assume "regex_test r (c # cs)"
    then consider "match_here r (c # cs)" | "regex_test r cs" by auto
    then show "\<exists>pre mid post. c # cs = pre @ mid @ post \<and> list_all2 atom_matches r mid"
    proof cases
      case 1
      with here obtain mid post where "c # cs = [] @ mid @ post" "list_all2 atom_matches r mid"
        by auto
      then show ?thesis by blast
    next
      case 2
      with Cons.IH obtain pre mid post where "cs = pre @ mid @ post" "list_all2 atom_matches r mid"
        by blast
      then have "c # cs = (c # pre) @ mid @ post" by simp
      with \<open>list_all2 atom_matches r mid\<close> show ?thesis by blast
    qed
  next
    assume "\<exists>pre mid post. c # cs = pre @ mid @ post \<and> list_all2 atom_matches r mid"
    then obtain pre mid post where pmp: "c # cs = pre @ mid @ post" "list_all2 atom_matches r mid"
      by blast
    show "regex_test r (c # cs)"
    proof (cases pre)
      case Nil
      with pmp have "\<exists>mid post. c # cs = mid @ post \<and> list_all2 atom_matches r mid" by auto
      with here have "match_here r (c # cs)" by blast
      then show ?thesis by simp
    next
      case (Cons p pre')
      with pmp have "cs = pre' @ mid @ post" by simp
      with pmp(2) Cons.IH show ?thesis by auto
    qed
  qed
qed

lemma evaluate_as_plugin:
  "routerParse [babelModuleFinder] modules m = evaluate m"
  by (simp add: routerParse_def babelModuleFinder_def evaluate_def)

text \<open>
  C1. A module whose \<open>originalCode\<close> the fingerprint matches leaves the Babel tagger with
  \<open>isNpmModule\<close> and \<open>ignored\<close> set and \<open>npmModuleName\<close> the name of the array-spread
  helper, every other field as it was; a module the fingerprint does not match leaves
  it unchanged. The tagger run by the router on the module is the same function.
\<close>

theorem babel_fingerprint_tagging:
  "(regex_test arraySpreadRegex (originalCode m) \<longrightarrow>
      evaluate m = m\<lparr>isNpmModule := True,
        npmModuleName := Some (js ''@babel/runtime/helpers/toConsumableArray''),
        ignored := True\<rparr>) \<and>
   (\<not> regex_test arraySpreadRegex (originalCode m) \<longrightarrow> evaluate m = m) \<and>
   routerParse [babelModuleFinder] modules m = evaluate m"
  by (simp add: evaluate_def tagAsNpmModule_def routerParse_def babelModuleFinder_def)

lemma helperCode_matches: "regex_test arraySpreadRegex helperCode"
  by code_simp

lemma constantCode_no_match: "\<not> regex_test arraySpreadRegex constantCode"
  by code_simp

theorem babel_fingerprint_tagging_witness:
  "regex_test arraySpreadRegex (originalCode helperModule) \<and>
   isNpmModule (evaluate helperModule) \<and>
   npmModuleName (evaluate helperModule) = Some (js ''@babel/runtime/helpers/toConsumableArray'') \<and>
   ignored (evaluate helperModule) \<and>
   \<not> regex_test arraySpreadRegex (originalCode constantModule) \<and>
   evaluate constantModule = constantModule"
  using babel_fingerprint_tagging [of helperModule "[]"]
    babel_fingerprint_tagging [of constantModule "[]"]
    helperCode_matches constantCode_no_match
  by (simp add: helperModule_def constantModule_def)

section \<open>The ignore propagator\<close>

lemma elements_concat:
  "elements xs = concat (map (\<lambda>slot. case slot of None \<Rightarrow> [] | Some x \<Rightarrow> [x]) xs)"
proof -
  have "map snd (concat (map (\<lambda>(i, slot). case slot of None \<Rightarrow> [] | Some x \<Rightarrow> [(i, x)])
          (enumerate n xs))) =
        concat (map (\<lambda>slot. case slot of None \<Rightarrow> [] | Some x \<Rightarrow> [x]) xs)" for n
    by (induction xs arbitrary: n) (auto split: option.splits)
  then show ?thesis by (simp add: elements_def entries_def)
qed

lemma elements_map:
  "elements (map (map_option g) xs) = map g (elements xs)"
  by (induction xs) (auto simp: elements_concat split: option.splits)

lemma set_filter_indices:
  "set (filter_indices p xs) = {i. i < length xs \<and> (\<exists>x. xs ! i = Some x \<and> p x)}"
  by (force simp: filter_indices_def set_entries)

lemma length_update_slots: "length (update_slots f idxs xs) = length xs"
  by (simp add: update_slots_def)

lemma nth_update_slots:
  "i < length xs \<Longrightarrow>
   update_slots f idxs xs ! i = (if i \<in> set idxs then map_option f (xs ! i) else xs ! i)"
  by (simp add: update_slots_def nth_enumerate_eq)

text \<open>A round of the source marks the modules of its predicate, and no other.\<close>

lemma markIgnored_round:
  "markIgnored (calculateModulesToIgnore False modules old) modules = ignoreRound modules"
proof (rule nth_equalityI)
  show "length (markIgnored (calculateModulesToIgnore False modules old) modules)
      = length (ignoreRound modules)"
    by (simp add: markIgnored_def ignoreRound_def length_update_slots)
next
  fix i
  assume "i < length (markIgnored (calculateModulesToIgnore False modules old) modules)"
  then have i: "i < length modules" by (simp add: markIgnored_def length_update_slots)
  show "markIgnored (calculateModulesToIgnore False modules old) modules ! i
      = ignoreRound modules ! i"
  proof (cases "modules ! i")
    case None
    with i show ?thesis
      by (simp add: markIgnored_def ignoreRound_def nth_update_slots)
  next
    case (Some m)
    with i show ?thesis
      by (simp add: markIgnored_def ignoreRound_def nth_update_slots
          calculateModulesToIgnore_def set_filter_indices)
  qed
qed

lemma calculate_empty_iff:
  "calculateModulesToIgnore False modules old = [] \<longleftrightarrow>
   \<not> (\<exists>m \<in> set (elements modules). toIgnore modules m)"
proof -
  have "calculateModulesToIgnore False modules old = [] \<longleftrightarrow>
      set (filter_indices (toIgnore modules) modules) = {}"
    by (simp add: calculateModulesToIgnore_def)
  also have "\<dots> \<longleftrightarrow> \<not> (\<exists>m \<in> set (elements modules). toIgnore modules m)"
    by (auto simp: set_filter_indices set_elements in_set_conv_nth)
  finally show ?thesis .
qed

lemma ignorePropagation_step:
  "ignorePropagation False modules =
     (if \<exists>m \<in> set (elements modules). toIgnore modules m
      then ignorePropagation False (ignoreRound modules)
      else Some modules)"
proof (cases "\<exists>m \<in> set (elements modules). toIgnore modules m")
  case False
  then have "calculateModulesToIgnore False modules [] = []"
    by (simp only: calculate_empty_iff not_False_eq_True)
  with False show ?thesis
    by (simp add: ignorePropagation_def ignoreLoop.simps)
next
  case True
  then have ne: "calculateModulesToIgnore False modules [] \<noteq> []"
    by (simp only: calculate_empty_iff not_not)
  have "ignorePropagation False modules =
      ignoreLoop False (ignoreRound modules)
        (calculateModulesToIgnore False (ignoreRound modules)
           (calculateModulesToIgnore False modules []))"
    unfolding ignorePropagation_def
    by (subst ignoreLoop.simps) (simp add: ne markIgnored_round)
  also have "\<dots> = ignorePropagation False (ignoreRound modules)"
    by (simp add: ignorePropagation_def calculateModulesToIgnore_def)
  finally show ?thesis using True by simp
qed

lemma ignoreRound_fewer:
  assumes "m \<in> set (elements modules)" and "toIgnore modules m"
  shows "length (filter (\<lambda>m. \<not> ignored m) (elements (ignoreRound modules)))
       < length (filter (\<lambda>m. \<not> ignored m) (elements modules))"
proof -
  let ?g = "\<lambda>m. if toIgnore modules m then m\<lparr>ignored := True\<rparr> else m"
  have len: "length (filter (\<lambda>m. \<not> ignored m) (map ?g xs))
      = length (filter (\<lambda>m. \<not> toIgnore modules m) (filter (\<lambda>m. \<not> ignored m) xs))" for xs
    by (induction xs) auto
  have "length (filter (\<lambda>m. \<not> ignored m) (elements (ignoreRound modules)))
      = length (filter (\<lambda>m. \<not> toIgnore modules m)
          (filter (\<lambda>m. \<not> ignored m) (elements modules)))"
    by (simp only: ignoreRound_def elements_map len)
  also have "\<dots> < length (filter (\<lambda>m. \<not> ignored m) (elements modules))"
  proof (rule length_filter_less)
    show "m \<in> set (filter (\<lambda>m. \<not> ignored m) (elements modules))"
      using assms by (simp add: toIgnore_def)
    show "\<not> \<not> toIgnore modules m" using assms(2) by simp
  qed
  finally show ?thesis .
qed

lemma staysIgnored_refl: "staysIgnored slot slot"
  by (simp add: staysIgnored_def split: option.splits)

lemma staysIgnored_trans:
  "staysIgnored a b \<Longrightarrow> staysIgnored b c \<Longrightarrow> staysIgnored a c"
  by (auto simp: staysIgnored_def split: option.splits)

lemma ignoredPreserved_refl: "ignoredPreserved modules modules"
  by (simp add: ignoredPreserved_def list_all2_refl staysIgnored_refl)

lemma ignoredPreserved_trans:
  "ignoredPreserved a b \<Longrightarrow> ignoredPreserved b c \<Longrightarrow> ignoredPreserved a c"
  unfolding ignoredPreserved_def
  by (rule list_all2_trans [where ?P1.0 = staysIgnored and ?P2.0 = staysIgnored])
    (auto intro: staysIgnored_trans)

lemma ignoredPreserved_round: "ignoredPreserved modules (ignoreRound modules)"
  by (auto simp: ignoredPreserved_def ignoreRound_def list_all2_conv_all_nth staysIgnored_def
      split: option.splits)

lemma ignorePropagation_terminates:
  "\<exists>r. ignorePropagation False modules = Some r
     \<and> \<not> (\<exists>m \<in> set (elements r). toIgnore r m)
     \<and> ignoredPreserved modules r"
proof (induction "length (filter (\<lambda>m. \<not> ignored m) (elements modules))"
    arbitrary: modules rule: less_induct)
  case less
  show ?case
  proof (cases "\<exists>m \<in> set (elements modules). toIgnore modules m")
    case False
    then have "ignorePropagation False modules = Some modules"
      by (subst ignorePropagation_step) simp
    with False show ?thesis by (simp add: ignoredPreserved_refl)
  next
    case True
    then obtain m where "m \<in> set (elements modules)" "toIgnore modules m" by blast
    then have "length (filter (\<lambda>m. \<not> ignored m) (elements (ignoreRound modules)))
        < length (filter (\<lambda>m. \<not> ignored m) (elements modules))"
      by (rule ignoreRound_fewer)
    from less [OF this] obtain r where r:
      "ignorePropagation False (ignoreRound modules) = Some r"
      "\<not> (\<exists>m \<in> set (elements r). toIgnore r m)"
      "ignoredPreserved (ignoreRound modules) r"
      by blast
    have "ignorePropagation False modules = Some r"
      using True r(1) by (subst ignorePropagation_step) simp
    moreover have "ignoredPreserved modules r"
      using ignoredPreserved_round r(3) by (rule ignoredPreserved_trans)
    ultimately show ?thesis using r(2) by blast
  qed
qed

lemma ignorePropagation_agressive: "ignorePropagation True modules = Some modules"
  by (simp add: ignorePropagation_def calculateModulesToIgnore_def ignoreLoop.simps)

text \<open>
  The source's predicate against the specification's: the source does not read
  \<open>isNpmModule\<close>.
\<close>

lemma toIgnore_iff:
  "toIgnore modules m \<longleftrightarrow>
     \<not> ignored m \<and>
     (\<exists>otherMod \<in> set (elements modules). moduleId m \<in> set (dependencies otherMod)) \<and>
     (\<forall>otherMod \<in> set (elements modules).
        moduleId m \<in> set (dependencies otherMod) \<longrightarrow>
        ignored otherMod \<or> moduleId otherMod \<in> set (dependencies m))"
proof -
  have "length (dependentModules modules m) > 0 \<longleftrightarrow>
      (\<exists>otherMod \<in> set (elements modules). moduleId m \<in> set (dependencies otherMod))"
    by (auto simp: dependentModules_def filter_empty_conv)
  then show ?thesis
    by (auto simp: toIgnore_def list_all_iff dependentModules_def)
qed

lemma specToIgnore_iff:
  "specToIgnore modules m \<longleftrightarrow> toIgnore modules m \<and> \<not> isNpmModule m"
  by (auto simp: specToIgnore_def toIgnore_iff)

text \<open>
  C4, as amended. When the aggressive cache mode is not in force the ignore propagator
  ends, and at a fixed point: in the graph it returns no module satisfies the predicate
  of a round, that is, no module that is not ignored has a reverse dependent while all
  its reverse dependents are ignored or among its own dependencies (so no such module
  that is not an NPM module either). A round marks as ignored the modules that satisfy
  this predicate on the graph as the round found it, and no other; the propagator stops
  at the first round that finds none. The predicate of the source does not read
  \<open>isNpmModule\<close>: it is the specification's predicate for every module that is not an NPM
  module.
\<close>

theorem ignore_propagation_fixed_point:
  "(\<exists>r. ignorePropagation False modules = Some r
       \<and> \<not> (\<exists>m \<in> set (elements r). toIgnore r m)
       \<and> \<not> (\<exists>m \<in> set (elements r). specToIgnore r m)) \<and>
   markIgnored (calculateModulesToIgnore False modules old) modules = ignoreRound modules \<and>
   ignorePropagation False modules =
     (if \<exists>m \<in> set (elements modules). toIgnore modules m
      then ignorePropagation False (ignoreRound modules)
      else Some modules) \<and>
   (toIgnore modules m \<longleftrightarrow>
      \<not> ignored m \<and>
      (\<exists>otherMod \<in> set (elements modules). moduleId m \<in> set (dependencies otherMod)) \<and>
      (\<forall>otherMod \<in> set (elements modules).
         moduleId m \<in> set (dependencies otherMod) \<longrightarrow>
         ignored otherMod \<or> moduleId otherMod \<in> set (dependencies m))) \<and>
   (\<not> isNpmModule m \<longrightarrow> (toIgnore modules m \<longleftrightarrow> specToIgnore modules m))"
proof -
  obtain r where r: "ignorePropagation False modules = Some r"
    "\<not> (\<exists>m \<in> set (elements r). toIgnore r m)"
    using ignorePropagation_terminates by blast
  from r(2) have "\<not> (\<exists>m \<in> set (elements r). specToIgnore r m)"
    by (simp add: specToIgnore_iff)
  with r have "\<exists>r. ignorePropagation False modules = Some r
       \<and> \<not> (\<exists>m \<in> set (elements r). toIgnore r m)
       \<and> \<not> (\<exists>m \<in> set (elements r). specToIgnore r m)"
    by blast
  moreover note markIgnored_round [of modules old] ignorePropagation_step [of modules]
    toIgnore_iff [of modules m]
  moreover have "\<not> isNpmModule m \<longrightarrow> (toIgnore modules m \<longleftrightarrow> specToIgnore modules m)"
    by (simp add: specToIgnore_iff)
  ultimately show ?thesis by blast
qed

text \<open>
  On the chain the propagator needs two rounds: module 1 first, whose only dependent is
  the ignored module 0, then module 2, whose only dependent is module 1.
\<close>

lemma chainGraph_round1:
  "ignoreRound chainGraph =
     [Some (exampleModule 0 [1] True True), Some (exampleModule 1 [2] False True),
      Some (exampleModule 2 [] False False)]"
  by code_simp

lemma chainGraph_round2:
  "ignoreRound [Some (exampleModule 0 [1] True True), Some (exampleModule 1 [2] False True),
      Some (exampleModule 2 [] False False)] =
     [Some (exampleModule 0 [1] True True), Some (exampleModule 1 [2] False True),
      Some (exampleModule 2 [] False True)]"
  by code_simp

theorem ignore_propagation_fixed_point_witness:
  "ignorePropagation False chainGraph =
     Some [Some (exampleModule 0 [1] True True), Some (exampleModule 1 [2] False True),
           Some (exampleModule 2 [] False True)] \<and>
   toIgnore chainGraph (exampleModule 1 [2] False False) \<and>
   specToIgnore chainGraph (exampleModule 1 [2] False False) \<and>
   \<not> toIgnore chainGraph (exampleModule 2 [] False False)"
proof -
  let ?g1 = "[Some (exampleModule 0 [1] True True), Some (exampleModule 1 [2] False True),
      Some (exampleModule 2 [] False False)]"
  let ?g2 = "[Some (exampleModule 0 [1] True True), Some (exampleModule 1 [2] False True),
      Some (exampleModule 2 [] False True)]"
  have some0: "\<exists>m \<in> set (elements chainGraph). toIgnore chainGraph m" by code_simp
  have some1: "\<exists>m \<in> set (elements ?g1). toIgnore ?g1 m" by code_simp
  have none2: "\<not> (\<exists>m \<in> set (elements ?g2). toIgnore ?g2 m)" by code_simp
  have "ignorePropagation False chainGraph = ignorePropagation False ?g1"
    using ignore_propagation_fixed_point [of chainGraph "[]" "exampleModule 1 [2] False False"]
      some0 chainGraph_round1 by simp
  also have "\<dots> = ignorePropagation False ?g2"
    using ignore_propagation_fixed_point [of ?g1 "[]" "exampleModule 1 [2] False False"]
      some1 chainGraph_round2 by simp
  also have "\<dots> = Some ?g2"
    using ignore_propagation_fixed_point [of ?g2 "[]" "exampleModule 1 [2] False False"]
      none2 by simp
  finally have run: "ignorePropagation False chainGraph = Some ?g2" .
  have t1: "toIgnore chainGraph (exampleModule 1 [2] False False)" by code_simp
  have "\<not> isNpmModule (exampleModule 1 [2] False False)" by (simp add: exampleModule_def)
  with t1 ignore_propagation_fixed_point [of chainGraph "[]" "exampleModule 1 [2] False False"]
  have s1: "specToIgnore chainGraph (exampleModule 1 [2] False False)" by blast
  have "\<not> toIgnore chainGraph (exampleModule 2 [] False False)" by code_simp
  with run t1 s1 show ?thesis by blast
qed

text \<open>
  The claim as it was worded fails in two places. In the aggressive mode the propagator
  returns the chain as it is, and module 1 still satisfies the specification's
  predicate. And out of that mode a round marks the NPM module 1 of the second graph,
  which is not ignored and whose only dependent is: the specification's predicate leaves
  NPM modules out.
\<close>

theorem ignore_propagation_counterexample:
  "ignorePropagation True chainGraph = Some chainGraph \<and>
   exampleModule 1 [2] False False \<in> set (elements chainGraph) \<and>
   specToIgnore chainGraph (exampleModule 1 [2] False False) \<and>
   markIgnored (calculateModulesToIgnore False npmGraph []) npmGraph =
     [Some (exampleModule 0 [1] False True), Some (exampleModule 1 [] True True)] \<and>
   exampleModule 1 [] True False \<in> set (elements npmGraph) \<and>
   \<not> specToIgnore npmGraph (exampleModule 1 [] True False)"
proof -
  have "exampleModule 1 [2] False False \<in> set (elements chainGraph)" by code_simp
  moreover have "specToIgnore chainGraph (exampleModule 1 [2] False False)" by code_simp
  moreover have "markIgnored (calculateModulesToIgnore False npmGraph []) npmGraph =
     [Some (exampleModule 0 [1] False True), Some (exampleModule 1 [] True True)]"
    by code_simp
  moreover have "exampleModule 1 [] True False \<in> set (elements npmGraph)" by code_simp
  moreover have "\<not> specToIgnore npmGraph (exampleModule 1 [] True False)" by code_simp
  ultimately show ?thesis using ignorePropagation_agressive [of chainGraph] by blast
qed

section \<open>The entry filter\<close>

lemma filterByEntry_reachable:
  "set s = {x. reachable modules e x} \<Longrightarrow> filterByEntry modules s = keepReachable modules e"
  by (auto simp: filterByEntry_def keepReachable_def split: option.splits)

text \<open>
  C3. With an entry \<open>e\<close> and the aggressive cache mode not in force, the entry filter
  either throws, and then for an identifier reachable from \<open>e\<close> that no module of the
  graph carries (the entry itself or a dependency), or returns the graph with exactly the
  modules whose identifier is reachable from \<open>e\<close> along the dependencies; it throws
  whenever such a missing identifier exists. In the aggressive mode the filter never
  throws: with no cache it keeps the reachable modules, a missing one being passed over,
  and with a cache it does not run.
\<close>

theorem entry_filter_reachability:
  assumes "entry args = Some e"
  shows "(\<not> agressiveCache args \<longrightarrow>
            (if \<exists>x. reachable modules e x \<and> find_module modules x = None
             then \<exists>x. reachable modules e x \<and> find_module modules x = None \<and>
                    entryStage args cacheFile modules = Inl (missingDependency x)
             else entryStage args cacheFile modules = Inr (keepReachable modules e))) \<and>
         (agressiveCache args \<longrightarrow>
            entryStage args cacheFile modules =
              Inr (if cacheFile = None then keepReachable modules e else modules))"
proof (intro conjI impI)
  assume na: "\<not> agressiveCache args"
  with assms have stage: "entryStage args cacheFile modules =
      (case entryClosure modules False 0 [e] of
         Inl err \<Rightarrow> Inl err
       | Inr s \<Rightarrow> Inr (filterByEntry modules s))"
    by (simp add: entryStage_def entryFilterRuns_def)
  show "if \<exists>x. reachable modules e x \<and> find_module modules x = None
        then \<exists>x. reachable modules e x \<and> find_module modules x = None \<and>
               entryStage args cacheFile modules = Inl (missingDependency x)
        else entryStage args cacheFile modules = Inr (keepReachable modules e)"
  proof (cases "entryClosure modules False 0 [e]")
    case (Inl err)
    from entryClosure_Inl [OF Inl] obtain x where
      "reachable modules e x" "find_module modules x = None" "err = missingDependency x"
      by blast
    with stage Inl show ?thesis by auto
  next
    case (Inr s)
    from entryClosure_Inr [OF Inr] have
      s: "set s = {x. reachable modules e x}" and
      found: "\<And>x. reachable modules e x \<Longrightarrow> find_module modules x \<noteq> None"
      by simp_all
    from found have "\<not> (\<exists>x. reachable modules e x \<and> find_module modules x = None)" by blast
    with stage Inr s show ?thesis by (simp add: filterByEntry_reachable)
  qed
next
  assume ag: "agressiveCache args"
  show "entryStage args cacheFile modules =
      Inr (if cacheFile = None then keepReachable modules e else modules)"
  proof (cases "cacheFile = None")
    case False
    then obtain c where "cacheFile = Some c" by blast
    with ag show ?thesis by (simp add: entryStage_def entryFilterRuns_def)
  next
    case True
    with ag assms have stage: "entryStage args cacheFile modules =
        (case entryClosure modules True 0 [e] of
           Inl err \<Rightarrow> Inl err
         | Inr s \<Rightarrow> Inr (filterByEntry modules s))"
      by (simp add: entryStage_def entryFilterRuns_def)
    show ?thesis
    proof (cases "entryClosure modules True 0 [e]")
      case (Inl err)
      with entryClosure_Inl [OF Inl] show ?thesis by simp
    next
      case (Inr s)
      from entryClosure_Inr(1) [OF Inr] stage Inr True show ?thesis
        by (simp add: filterByEntry_reachable)
    qed
  qed
qed

text \<open>
  Scenario S4: with entry 1 the three modules survive; with entry 2 module 1 is dropped,
  since it is not reachable from module 2. A dependency on the missing module 5 throws,
  and is passed over in the aggressive mode.
\<close>

lemma s4_entry1:
  "entryStage (exampleArgs (Some 1) False False) None s4Graph = Inr s4Graph"
  by code_simp

lemma s4_entry2:
  "entryStage (exampleArgs (Some 2) False False) None s4Graph =
     Inr [None, None, Some (exampleModule 2 [3] False False), Some (exampleModule 3 [] False False)]"
  by code_simp

lemma dangling_throws:
  "entryStage (exampleArgs (Some 1) False False) None danglingGraph = Inl (missingDependency 5)"
  by code_simp

lemma dangling_agressive:
  "entryStage (exampleArgs (Some 1) True False) None danglingGraph = Inr danglingGraph"
  by code_simp

theorem entry_filter_reachability_witness:
  "entryStage (exampleArgs (Some 1) False False) None s4Graph = Inr s4Graph \<and>
   reachable s4Graph 1 3 \<and>
   entryStage (exampleArgs (Some 2) False False) None s4Graph =
     Inr [None, None, Some (exampleModule 2 [3] False False), Some (exampleModule 3 [] False False)] \<and>
   reachable s4Graph 2 3 \<and> \<not> reachable s4Graph 2 1 \<and>
   entryStage (exampleArgs (Some 1) False False) None danglingGraph = Inl (missingDependency 5) \<and>
   (\<exists>x. reachable danglingGraph 1 x \<and> find_module danglingGraph x = None) \<and>
   keepReachable danglingGraph 1 = danglingGraph"
proof -
  have e1: "entry (exampleArgs (Some 1) False False) = Some 1"
    and e2: "entry (exampleArgs (Some 2) False False) = Some 2"
    and e3: "entry (exampleArgs (Some 1) True False) = Some 1"
    and na: "\<not> agressiveCache (exampleArgs e False False)"
    and ag: "agressiveCache (exampleArgs e True False)" for e
    by (simp_all add: exampleArgs_def)
  note t1 = entry_filter_reachability [OF e1, of s4Graph None]
  note t2 = entry_filter_reachability [OF e2, of s4Graph None]
  note t3 = entry_filter_reachability [OF e1, of danglingGraph None]
  note t4 = entry_filter_reachability [OF e3, of danglingGraph None]
  from t1 na s4_entry1 have k1: "keepReachable s4Graph 1 = s4Graph"
    by (auto split: if_splits)
  then have r13: "reachable s4Graph 1 3"
    by (auto simp: keepReachable_def s4Graph_def exampleModule_def split: if_splits)
  from t2 na s4_entry2 have k2: "keepReachable s4Graph 2 =
      [None, None, Some (exampleModule 2 [3] False False), Some (exampleModule 3 [] False False)]"
    by (auto split: if_splits)
  then have r23: "reachable s4Graph 2 3" and r21: "\<not> reachable s4Graph 2 1"
    by (auto simp: keepReachable_def s4Graph_def exampleModule_def split: if_splits)
  from t3 na dangling_throws
  have missing: "\<exists>x. reachable danglingGraph 1 x \<and> find_module danglingGraph x = None"
    by (auto split: if_splits)
  from t4 ag dangling_agressive have k4: "keepReachable danglingGraph 1 = danglingGraph"
    by simp
  from s4_entry1 s4_entry2 dangling_throws r13 r23 r21 missing k4 show ?thesis by blast
qed

section \<open>Loading the cache\<close>

lemma validCachedModules_idem:
  "validCachedModules agressive (validCachedModules agressive cms) = validCachedModules agressive cms"
  by (simp add: validCachedModules_def)





section \<open>The validation of the cache\<close>

lemma existsSync_removeSync: "\<not> existsSync (removeSync path w) path"
  by (simp add: existsSync_def removeSync_def)

lemma readCacheFile_removed:
  "readCacheFile env args (removeSync (cacheFileName args) w) = Inr None"
  by (simp add: readCacheFile_def existsSync_removeSync)

text \<open>What the run does from the value of \<^verbatim>\<open>cacheFile\<close> after the validation.\<close>

lemma runWithInput_validated:
  "readCacheFile env args w = Inr cacheFile0 \<Longrightarrow>
   validateCache env args inputJsFile cacheFile0 w = Inr (cacheFile, w') \<Longrightarrow>
   runWithInput env args inputJsFile w =
     (case buildModules env args cacheFile inputJsFile of
        Inl e \<Rightarrow> Some (Inl e)
      | Inr modules \<Rightarrow>
          if length modules = 0 then Some (Inl (Exit 1))
          else pipeline env args inputJsFile cacheFile modules w')"
  by (simp add: runWithInput_def)

text \<open>
  C6, as amended. When the cache file is present and read, the digest of the text of the
  bundle is compared with the stored checksum. If they differ the cache file is removed
  and the modules are those found by parsing the bundle; when the aggressive cache mode
  is not in force the run is, from there on, the run on the file system without the
  cache file. If they are equal the modules are loaded from the records of the cache.
\<close>

theorem cache_checksum_validation:
  assumes "readCacheFile env args w = Inr (Some c)"
  shows "(checksum c \<noteq> md5 env inputJsFile \<longrightarrow>
            validateCache env args inputJsFile (Some c) w =
              Inr (None, removeSync (cacheFileName args) w) \<and>
            runWithInput env args inputJsFile w =
              (case parseModules env inputJsFile of
                 Inl e \<Rightarrow> Some (Inl e)
               | Inr modules \<Rightarrow>
                   if length modules = 0 then Some (Inl (Exit 1))
                   else pipeline env args inputJsFile None modules
                          (removeSync (cacheFileName args) w)) \<and>
            (\<not> agressiveCache args \<longrightarrow>
               runWithInput env args inputJsFile w =
               runWithInput env args inputJsFile (removeSync (cacheFileName args) w))) \<and>
         (checksum c = md5 env inputJsFile \<longrightarrow>
            validateCache env args inputJsFile (Some c) w = Inr (Some c, w) \<and>
            runWithInput env args inputJsFile w =
              (case loadCachedModules env (agressiveCache args)
                      (validCachedModules (agressiveCache args) (cachedModules c)) [] of
                 Inl e \<Rightarrow> Some (Inl e)
               | Inr modules \<Rightarrow>
                   if length modules = 0 then Some (Inl (Exit 1))
                   else pipeline env args inputJsFile (Some c) modules w))"
proof (intro conjI impI)
  assume differ: "checksum c \<noteq> md5 env inputJsFile"
  then show discarded: "validateCache env args inputJsFile (Some c) w =
      Inr (None, removeSync (cacheFileName args) w)"
    by (simp add: validateCache_def)
  show parsed: "runWithInput env args inputJsFile w =
      (case parseModules env inputJsFile of
         Inl e \<Rightarrow> Some (Inl e)
       | Inr modules \<Rightarrow>
           if length modules = 0 then Some (Inl (Exit 1))
           else pipeline env args inputJsFile None modules
                  (removeSync (cacheFileName args) w))"
    using runWithInput_validated [OF assms discarded] by (simp add: buildModules_def)
  assume "\<not> agressiveCache args"
  then have "validateCache env args inputJsFile None (removeSync (cacheFileName args) w) =
      Inr (None, removeSync (cacheFileName args) w)"
    by (simp add: validateCache_def)
  from runWithInput_validated [OF readCacheFile_removed this]
  have "runWithInput env args inputJsFile (removeSync (cacheFileName args) w) =
      (case parseModules env inputJsFile of
         Inl e \<Rightarrow> Some (Inl e)
       | Inr modules \<Rightarrow>
           if length modules = 0 then Some (Inl (Exit 1))
           else pipeline env args inputJsFile None modules
                  (removeSync (cacheFileName args) w))"
    by (simp add: buildModules_def)
  with parsed show "runWithInput env args inputJsFile w =
      runWithInput env args inputJsFile (removeSync (cacheFileName args) w)"
    by simp
next
  assume same: "checksum c = md5 env inputJsFile"
  then show kept: "validateCache env args inputJsFile (Some c) w = Inr (Some c, w)"
    by (simp add: validateCache_def)
  show "runWithInput env args inputJsFile w =
      (case loadCachedModules env (agressiveCache args)
              (validCachedModules (agressiveCache args) (cachedModules c)) [] of
         Inl e \<Rightarrow> Some (Inl e)
       | Inr modules \<Rightarrow>
           if length modules = 0 then Some (Inl (Exit 1))
           else pipeline env args inputJsFile (Some c) modules w)"
    using runWithInput_validated [OF assms kept] by (simp add: buildModules_def)
qed

text \<open>
  The examples: a cache file whose checksum is not the digest of the bundle, and one
  whose checksum is.
\<close>

lemma stale_cache_read:
  "readCacheFile exampleEnv (exampleArgs None agressive False) (cachedWorld (js ''stale'')) =
     Inr (Some (exampleCache (js ''0'')))"
  by (simp add: readCacheFile_def existsSync_def readFileSync_def cachedWorld_def
      cacheFileName_def exampleArgs_def stringOf_def exampleEnv_def exampleReadJSON_def js_def)

lemma valid_cache_read:
  "readCacheFile exampleEnv (exampleArgs None agressive False) (cachedWorld (js ''valid'')) =
     Inr (Some (exampleCache (numberToString (length exampleBundle))))"
  by (simp add: readCacheFile_def existsSync_def readFileSync_def cachedWorld_def
      cacheFileName_def exampleArgs_def stringOf_def exampleEnv_def exampleReadJSON_def js_def)

lemma stale_checksum:
  "checksum (exampleCache (js ''0'')) \<noteq> md5 exampleEnv exampleBundle"
  by code_simp

lemma valid_checksum:
  "checksum (exampleCache (numberToString (length exampleBundle))) = md5 exampleEnv exampleBundle"
  by (simp add: exampleCache_def exampleEnv_def)

theorem cache_checksum_validation_witness:
  "readCacheFile exampleEnv (exampleArgs None False False) (cachedWorld (js ''stale'')) =
     Inr (Some (exampleCache (js ''0''))) \<and>
   checksum (exampleCache (js ''0'')) \<noteq> md5 exampleEnv exampleBundle \<and>
   validateCache exampleEnv (exampleArgs None False False) exampleBundle
     (Some (exampleCache (js ''0''))) (cachedWorld (js ''stale'')) =
     Inr (None, removeSync (js ''out/null.cache'') (cachedWorld (js ''stale''))) \<and>
   runWithInput exampleEnv (exampleArgs None False False) exampleBundle
     (cachedWorld (js ''stale'')) =
   runWithInput exampleEnv (exampleArgs None False False) exampleBundle
     (removeSync (js ''out/null.cache'') (cachedWorld (js ''stale''))) \<and>
   readCacheFile exampleEnv (exampleArgs None False False) (cachedWorld (js ''valid'')) =
     Inr (Some (exampleCache (numberToString (length exampleBundle)))) \<and>
   validateCache exampleEnv (exampleArgs None False False) exampleBundle
     (Some (exampleCache (numberToString (length exampleBundle)))) (cachedWorld (js ''valid'')) =
     Inr (Some (exampleCache (numberToString (length exampleBundle))), cachedWorld (js ''valid''))"
proof -
  have name: "cacheFileName (exampleArgs None False False) = js ''out/null.cache''"
    by (simp add: cacheFileName_def exampleArgs_def stringOf_def js_def)
  have na: "\<not> agressiveCache (exampleArgs None False False)" by (simp add: exampleArgs_def)
  note stale = cache_checksum_validation [OF stale_cache_read [of False], of exampleBundle]
  note valid = cache_checksum_validation [OF valid_cache_read [of False], of exampleBundle]
  from stale stale_checksum na
  have s1: "validateCache exampleEnv (exampleArgs None False False) exampleBundle
      (Some (exampleCache (js ''0''))) (cachedWorld (js ''stale'')) =
      Inr (None, removeSync (cacheFileName (exampleArgs None False False))
        (cachedWorld (js ''stale'')))"
    and s2: "runWithInput exampleEnv (exampleArgs None False False) exampleBundle
      (cachedWorld (js ''stale'')) =
    runWithInput exampleEnv (exampleArgs None False False) exampleBundle
      (removeSync (cacheFileName (exampleArgs None False False)) (cachedWorld (js ''stale'')))"
    by blast+
  from valid valid_checksum
  have v1: "validateCache exampleEnv (exampleArgs None False False) exampleBundle
     (Some (exampleCache (numberToString (length exampleBundle)))) (cachedWorld (js ''valid'')) =
     Inr (Some (exampleCache (numberToString (length exampleBundle))), cachedWorld (js ''valid''))"
    by blast
  note s1 [unfolded name] s2 [unfolded name] v1
  then show ?thesis
    using stale_cache_read [of False] valid_cache_read [of False] stale_checksum by blast
qed

text \<open>
  The claim as it was worded fails in the aggressive cache mode: with the stale cache
  file the run goes on to its end, parsing the bundle, while the run on the same file
  system without the cache file exits with code 1.
\<close>

lemma stale_agressive_run:
  "(case runWithInput exampleEnv (exampleArgs None True False) exampleBundle
           (cachedWorld (js ''stale'')) of
      Some (Inr r) \<Rightarrow> True
    | _ \<Rightarrow> False)"
  by code_simp

lemma uncached_agressive_run:
  "(case runWithInput exampleEnv (exampleArgs None True False) exampleBundle
           (removeSync (js ''out/null.cache'') (cachedWorld (js ''stale''))) of
      Some (Inl (Exit n)) \<Rightarrow> n = 1
    | _ \<Rightarrow> False)"
  by code_simp

theorem cache_checksum_validation_counterexample:
  "readCacheFile exampleEnv (exampleArgs None True False) (cachedWorld (js ''stale'')) =
     Inr (Some (exampleCache (js ''0''))) \<and>
   checksum (exampleCache (js ''0'')) \<noteq> md5 exampleEnv exampleBundle \<and>
   cacheFileName (exampleArgs None True False) = js ''out/null.cache'' \<and>
   runWithInput exampleEnv (exampleArgs None True False) exampleBundle
     (removeSync (js ''out/null.cache'') (cachedWorld (js ''stale''))) = Some (Inl (Exit 1)) \<and>
   runWithInput exampleEnv (exampleArgs None True False) exampleBundle
     (cachedWorld (js ''stale'')) \<noteq>
   runWithInput exampleEnv (exampleArgs None True False) exampleBundle
     (removeSync (js ''out/null.cache'') (cachedWorld (js ''stale'')))"
proof -
  have name: "cacheFileName (exampleArgs None True False) = js ''out/null.cache''"
    by (simp add: cacheFileName_def exampleArgs_def stringOf_def js_def)
  have exits: "runWithInput exampleEnv (exampleArgs None True False) exampleBundle
     (removeSync (js ''out/null.cache'') (cachedWorld (js ''stale''))) = Some (Inl (Exit 1))"
    using uncached_agressive_run by (auto split: option.splits sum.splits fatal.splits)
  moreover have "runWithInput exampleEnv (exampleArgs None True False) exampleBundle
     (cachedWorld (js ''stale'')) \<noteq> Some (Inl (Exit 1))"
    using stale_agressive_run by (auto split: option.splits sum.splits)
  ultimately show ?thesis
    using stale_cache_read [of True] stale_checksum name by simp
qed

section \<open>Saving the generated files\<close>





section \<open>The exits of the program\<close>





section \<open>The entry 0\<close>

lemma last_js_suffix:
  "last (outputPath args name) = of_char CHR ''s''" "last (cacheFileName args) = of_char CHR ''e''"
  by (simp_all add: outputPath_def cacheFileName_def js_def)

lemma outputPath_not_cache: "outputPath args name \<noteq> cacheFileName args"
proof
  assume "outputPath args name = cacheFileName args"
  then have "last (outputPath args name) = last (cacheFileName args)" by simp
  then have "(of_char CHR ''s'' :: code_unit) = of_char CHR ''e''"
    by (simp only: last_js_suffix)
  then show False by simp
qed

lemma saveFile_writes:
  "saveFile args generatedFile w = Inr w' \<Longrightarrow>
   set (writes w') \<subseteq> insert (outputPath args (fst generatedFile)) (set (writes w))"
  by (auto simp: saveFile_def writeFileSync_def split: if_splits sum.splits)

lemma saveFiles_writes:
  "saveFiles args generated w = Inr w' \<Longrightarrow>
   set (writes w') \<subseteq> set (writes w) \<union> range (outputPath args)"
proof (induction generated arbitrary: w)
  case Nil
  then show ?case by auto
next
  case (Cons generatedFile rest)
  from Cons.prems obtain w1 where w1: "saveFile args generatedFile w = Inr w1"
    "saveFiles args rest w1 = Inr w'"
    by (auto split: sum.splits)
  from saveFile_writes [OF w1(1)] Cons.IH [OF w1(2)] show ?case by auto
qed

lemma pipeline_final:
  "pipeline env args inputJsFile cacheFile modules w = Some (Inr r) \<Longrightarrow>
   \<exists>w'. saveFiles args
          (generatedFiles env (nonIgnoredModules args (afterPropagation r)) (afterDecompile r)) w
          = Inr w' \<and>
        finalWorld r = writeCacheStage env args inputJsFile (afterDecompile r) w'"
  by (auto simp: pipeline_def Let_def split: sum.splits option.splits)

text \<open>
  C9, as amended. With the entry 0 the guard of the entry filter holds as it does for any
  other entry, that is, unless the aggressive cache mode is in force with a validated
  cache; but the guard of the cache writer fails: the stage leaves the file system as it
  is, and a run that reaches its end has written no cache file. With an entry other than
  0 and the aggressive cache mode not in force the stage writes the cache file, and a run
  that reaches its end leaves the cache file with the text of the cache.
\<close>

theorem entry_zero_guards:
  "(entry args = Some 0 \<longrightarrow>
      (entryFilterRuns args cacheFile \<longleftrightarrow> \<not> agressiveCache args \<or> cacheFile = None) \<and>
      \<not> cacheIsWritten args \<and>
      writeCacheStage env args inputJsFile modules w = w \<and>
      (pipeline env args inputJsFile cacheFile modules w = Some (Inr r) \<and>
       cacheFileName args \<notin> set (writes w) \<longrightarrow>
         cacheFileName args \<notin> set (writes (finalWorld r)))) \<and>
   (entry args = Some n \<and> n \<noteq> 0 \<and> \<not> agressiveCache args \<longrightarrow>
      entryFilterRuns args cacheFile \<and>
      cacheIsWritten args \<and>
      writeCacheStage env args inputJsFile modules w =
        writeFileSync (cacheFileName args) (cacheText env inputJsFile modules) w \<and>
      (pipeline env args inputJsFile cacheFile modules w = Some (Inr r) \<longrightarrow>
         files (finalWorld r) (cacheFileName args) =
           Some (cacheText env inputJsFile (afterDecompile r)) \<and>
         hd (writes (finalWorld r)) = cacheFileName args))"
proof (intro conjI impI)
  assume zero: "entry args = Some 0"
  show "entryFilterRuns args cacheFile \<longleftrightarrow> \<not> agressiveCache args \<or> cacheFile = None"
    using zero by (simp add: entryFilterRuns_def)
  show nw: "\<not> cacheIsWritten args"
    using zero by (simp add: cacheIsWritten_def truthyNumber_def)
  then show "writeCacheStage env args inputJsFile modules w = w"
    by (simp add: writeCacheStage_def)
  assume run: "pipeline env args inputJsFile cacheFile modules w = Some (Inr r) \<and>
       cacheFileName args \<notin> set (writes w)"
  then obtain w' where w': "saveFiles args
      (generatedFiles env (nonIgnoredModules args (afterPropagation r)) (afterDecompile r)) w
      = Inr w'"
    "finalWorld r = writeCacheStage env args inputJsFile (afterDecompile r) w'"
    using pipeline_final by blast
  from nw w'(2) have "finalWorld r = w'" by (simp add: writeCacheStage_def)
  moreover have "cacheFileName args \<notin> range (outputPath args)"
  proof
    assume "cacheFileName args \<in> range (outputPath args)"
    then obtain name where "cacheFileName args = outputPath args name" by blast
    with outputPath_not_cache [of args name] show False by simp
  qed
  ultimately show "cacheFileName args \<notin> set (writes (finalWorld r))"
    using saveFiles_writes [OF w'(1)] run by auto
next
  assume nz: "entry args = Some n \<and> n \<noteq> 0 \<and> \<not> agressiveCache args"
  then show "entryFilterRuns args cacheFile" by (simp add: entryFilterRuns_def)
  from nz show cw: "cacheIsWritten args" by (simp add: cacheIsWritten_def truthyNumber_def)
  then show "writeCacheStage env args inputJsFile modules w =
        writeFileSync (cacheFileName args) (cacheText env inputJsFile modules) w"
    by (simp add: writeCacheStage_def)
  assume run: "pipeline env args inputJsFile cacheFile modules w = Some (Inr r)"
  then obtain w' where w': "finalWorld r =
      writeCacheStage env args inputJsFile (afterDecompile r) w'"
    using pipeline_final by blast
  with cw show "files (finalWorld r) (cacheFileName args) =
      Some (cacheText env inputJsFile (afterDecompile r))"
    by (simp add: writeCacheStage_def writeFileSync_def)
  from cw w' show "hd (writes (finalWorld r)) = cacheFileName args"
    by (simp add: writeCacheStage_def writeFileSync_def)
qed

text \<open>
  The bundle of the examples with the entry 0 and with the entry 1: both runs filter the
  graph and write the output files; only the second writes its cache file.
\<close>

lemma entry0_run:
  "(case runWithInput exampleEnv (exampleArgs (Some 0) False False) exampleBundle bundleWorld of
      Some (Inr r) \<Rightarrow> writes (finalWorld r) = [js ''out/1.js'', js ''out/0.js'']
    | _ \<Rightarrow> False)"
  by code_simp

lemma entry1_run:
  "(case runWithInput exampleEnv (exampleArgs (Some 1) False False) exampleBundle bundleWorld of
      Some (Inr r) \<Rightarrow> writes (finalWorld r) = [js ''out/1.cache'', js ''out/1.js'']
    | _ \<Rightarrow> False)"
  by code_simp

theorem entry_zero_guards_witness:
  "entryFilterRuns (exampleArgs (Some 0) False False) None \<and>
   \<not> cacheIsWritten (exampleArgs (Some 0) False False) \<and>
   writeCacheStage exampleEnv (exampleArgs (Some 0) False False) exampleBundle s4Graph bundleWorld
     = bundleWorld \<and>
   entryFilterRuns (exampleArgs (Some 1) False False) None \<and>
   cacheIsWritten (exampleArgs (Some 1) False False) \<and>
   writeCacheStage exampleEnv (exampleArgs (Some 1) False False) exampleBundle s4Graph bundleWorld
     = writeFileSync (js ''out/1.cache'') (js ''valid'') bundleWorld \<and>
   (case runWithInput exampleEnv (exampleArgs (Some 0) False False) exampleBundle bundleWorld of
      Some (Inr r) \<Rightarrow> writes (finalWorld r) = [js ''out/1.js'', js ''out/0.js'']
    | _ \<Rightarrow> False) \<and>
   (case runWithInput exampleEnv (exampleArgs (Some 1) False False) exampleBundle bundleWorld of
      Some (Inr r) \<Rightarrow> writes (finalWorld r) = [js ''out/1.cache'', js ''out/1.js'']
    | _ \<Rightarrow> False)"
proof -
  have e0: "entry (exampleArgs (Some 0) False False) = Some 0"
    and e1: "entry (exampleArgs (Some 1) False False) = Some 1"
    and na: "\<not> agressiveCache (exampleArgs e False False)" for e
    by (simp_all add: exampleArgs_def)
  have name: "cacheFileName (exampleArgs (Some 1) False False) = js ''out/1.cache''"
    by (simp add: cacheFileName_def exampleArgs_def stringOf_def numberToString_def
        digits.simps js_def)
  have written: "cacheText exampleEnv exampleBundle s4Graph = js ''valid''"
    by (simp add: exampleEnv_def)
  from entry_zero_guards [of "exampleArgs (Some 0) False False" None exampleEnv exampleBundle
      s4Graph bundleWorld undefined 1] e0 na
  have z: "entryFilterRuns (exampleArgs (Some 0) False False) None"
    "\<not> cacheIsWritten (exampleArgs (Some 0) False False)"
    "writeCacheStage exampleEnv (exampleArgs (Some 0) False False) exampleBundle s4Graph
       bundleWorld = bundleWorld"
    by simp_all
  from entry_zero_guards [of "exampleArgs (Some 1) False False" None exampleEnv exampleBundle
      s4Graph bundleWorld undefined 1] e1 na
  have o: "entryFilterRuns (exampleArgs (Some 1) False False) None"
    "cacheIsWritten (exampleArgs (Some 1) False False)"
    "writeCacheStage exampleEnv (exampleArgs (Some 1) False False) exampleBundle s4Graph
       bundleWorld =
     writeFileSync (cacheFileName (exampleArgs (Some 1) False False))
       (cacheText exampleEnv exampleBundle s4Graph) bundleWorld"
    by simp_all
  from z o(1,2) o(3) [unfolded name written] entry0_run entry1_run show ?thesis by blast
qed

text \<open>
  The claim as it was worded fails where the aggressive cache mode is in force with a
  validated cache: with the entry 0, as with any other, the entry filter does not run.
\<close>

theorem entry_zero_guards_counterexample:
  "entry (exampleArgs (Some 0) True False) = Some 0 \<and>
   agressiveCache (exampleArgs (Some 0) True False) \<and>
   \<not> entryFilterRuns (exampleArgs (Some 0) True False) (Some emptyCache) \<and>
   entryStage (exampleArgs (Some 0) True False) (Some emptyCache) s4Graph = Inr s4Graph \<and>
   find_module s4Graph 0 = None"
proof -
  have "find_module s4Graph 0 = None" by code_simp
  then show ?thesis
    by (simp add: entryStage_def entryFilterRuns_def exampleArgs_def)
qed

section \<open>The ignored flag never falls\<close>

lemma applyEffect_ignored: "ignored m \<Longrightarrow> ignored (applyEffect e m)"
  by (cases e) (simp_all add: tagAsNpmModule_def)

lemma fold_applyEffect_ignored: "ignored m \<Longrightarrow> ignored (fold applyEffect es m)"
  by (induction es arbitrary: m) (simp_all add: applyEffect_ignored)

lemma routerParse_ignored: "ignored m \<Longrightarrow> ignored (routerParse list modules m)"
  unfolding routerParse_def
  by (induction list arbitrary: m) (simp_all add: fold_applyEffect_ignored)

lemma evaluate_ignored: "ignored m \<Longrightarrow> ignored (evaluate m)"
  by (simp add: evaluate_def tagAsNpmModule_def)

lemma initalize_ignored: "ignored m \<Longrightarrow> ignored (initalize m)"
  by (simp add: initalize_def)

lemma ignoredPreserved_iff:
  "ignoredPreserved before after \<longleftrightarrow>
     length before = length after \<and>
     (\<forall>i < length before. staysIgnored (before ! i) (after ! i))"
  by (simp add: ignoredPreserved_def list_all2_conv_all_nth)

lemma onSlot_preserved:
  assumes "\<And>ms m. ignored m \<Longrightarrow> ignored (f ms m)"
  shows "ignoredPreserved modules (onSlot f i modules)"
proof (cases "i < length modules")
  case False
  then show ?thesis by (simp add: onSlot_def ignoredPreserved_refl)
next
  case True
  show ?thesis
  proof (cases "modules ! i")
    case None
    with True show ?thesis by (simp add: onSlot_def ignoredPreserved_refl)
  next
    case (Some m)
    with True have "onSlot f i modules = modules[i := Some (f modules m)]"
      by (simp add: onSlot_def)
    moreover have "staysIgnored (modules ! j) (modules[i := Some (f modules m)] ! j)"
      if "j < length modules" for j
    proof (cases "j = i")
      case True
      with Some that assms [of m modules] show ?thesis by (simp add: staysIgnored_def)
    next
      case False
      then show ?thesis by (simp add: staysIgnored_refl)
    qed
    ultimately show ?thesis by (simp add: ignoredPreserved_iff)
  qed
qed

lemma fold_preserved:
  assumes "\<And>i ms. ignoredPreserved ms (g i ms)"
  shows "ignoredPreserved modules (fold g idxs modules)"
proof (induction idxs arbitrary: modules)
  case Nil
  then show ?case by (simp add: ignoredPreserved_refl)
next
  case (Cons i idxs)
  have "ignoredPreserved modules (g i modules)" by (rule assms)
  moreover have "ignoredPreserved (g i modules) (fold g idxs (g i modules))" by (rule Cons.IH)
  ultimately show ?case by (simp add: ignoredPreserved_trans)
qed

lemma preParseStage_preserved: "ignoredPreserved modules (preParseStage args modules)"
  unfolding preParseStage_def
  by (rule fold_preserved) (rule onSlot_preserved, rule initalize_ignored)

lemma taggingStage_preserved: "ignoredPreserved modules (taggingStage env idxs modules)"
  unfolding taggingStage_def
  by (rule fold_preserved) (rule onSlot_preserved, rule routerParse_ignored)

lemma decompileStage_preserved: "ignoredPreserved modules (decompileStage env idxs modules)"
  unfolding decompileStage_def
proof (rule fold_preserved)
  fix i and ms :: "'a modules"
  have "ignoredPreserved ms (onSlot (routerParse (editorList env)) i ms)"
    by (rule onSlot_preserved) (rule routerParse_ignored)
  moreover have "ignoredPreserved (onSlot (routerParse (editorList env)) i ms)
      (onSlot (routerParse (decompilerList env)) i (onSlot (routerParse (editorList env)) i ms))"
    by (rule onSlot_preserved) (rule routerParse_ignored)
  ultimately show "ignoredPreserved ms
      (onSlot (routerParse (decompilerList env)) i (onSlot (routerParse (editorList env)) i ms))"
    by (rule ignoredPreserved_trans)
qed

lemma filterByEntry_preserved: "ignoredPreserved modules (filterByEntry modules s)"
  by (auto simp: ignoredPreserved_iff filterByEntry_def staysIgnored_def split: option.splits)

lemma entryStage_preserved:
  "entryStage args cacheFile modules = Inr modules' \<Longrightarrow> ignoredPreserved modules modules'"
  by (auto simp: entryStage_def ignoredPreserved_refl filterByEntry_preserved
      split: if_splits sum.splits)

lemma ignorePropagation_preserved:
  "ignorePropagation agressive modules = Some modules' \<Longrightarrow> ignoredPreserved modules modules'"
proof (cases agressive)
  case True
  assume "ignorePropagation agressive modules = Some modules'"
  with True show ?thesis by (simp add: ignorePropagation_agressive ignoredPreserved_refl)
next
  case False
  assume run: "ignorePropagation agressive modules = Some modules'"
  obtain r where "ignorePropagation False modules = Some r" "ignoredPreserved modules r"
    using ignorePropagation_terminates by blast
  with run False show ?thesis by simp
qed

lemma pipeline_stages:
  assumes "pipeline env args inputJsFile cacheFile modules w = Some (Inr r)"
  shows "entryStage args cacheFile modules = Inr (afterEntryFilter r)"
    and "afterPreParse r = preParseStage args (afterEntryFilter r)"
    and "afterTagging r =
      taggingStage env (nonIgnoredModules args (afterEntryFilter r)) (afterPreParse r)"
    and "ignorePropagation (agressiveCache args) (afterTagging r) = Some (afterPropagation r)"
    and "afterDecompile r =
      decompileStage env (nonIgnoredModules args (afterPropagation r)) (afterPropagation r)"
  using assms
  by (auto simp: pipeline_def Let_def split: sum.splits option.splits)

text \<open>
  C5. In a run that reaches its end the ignored flag of a module never goes back to
  false: from the graph as it was built to the graph after the entry filter, and from
  there through the pre-parsing, the tagging, the ignore propagation and the editing and
  decompiling, each slot either keeps a module, which is ignored if it was, or is emptied
  by the entry filter. The Babel tagger and every run of the router keep an ignored
  module ignored; the generation and the saving of the output write no module.
\<close>

theorem ignored_is_monotone:
  assumes "pipeline env args inputJsFile cacheFile modules w = Some (Inr r)"
  shows "ignoredPreserved modules (afterEntryFilter r) \<and>
         ignoredPreserved (afterEntryFilter r) (afterPreParse r) \<and>
         ignoredPreserved (afterPreParse r) (afterTagging r) \<and>
         ignoredPreserved (afterTagging r) (afterPropagation r) \<and>
         ignoredPreserved (afterPropagation r) (afterDecompile r) \<and>
         ignoredPreserved modules (afterDecompile r) \<and>
         length (afterDecompile r) = length modules \<and>
         (\<forall>i m. i < length modules \<and> modules ! i = Some m \<and> ignored m \<longrightarrow>
            afterDecompile r ! i = None \<or>
            (\<exists>m'. afterDecompile r ! i = Some m' \<and> ignored m')) \<and>
         (ignored m \<longrightarrow> ignored (evaluate m)) \<and>
         (ignored m \<longrightarrow> ignored (routerParse list ms m))"
proof -
  note stages = pipeline_stages [OF assms]
  have s1: "ignoredPreserved modules (afterEntryFilter r)"
    using stages(1) by (rule entryStage_preserved)
  have s2: "ignoredPreserved (afterEntryFilter r) (afterPreParse r)"
    by (simp only: stages(2) preParseStage_preserved)
  have s3: "ignoredPreserved (afterPreParse r) (afterTagging r)"
    by (simp only: stages(3) taggingStage_preserved)
  have s4: "ignoredPreserved (afterTagging r) (afterPropagation r)"
    using stages(4) by (rule ignorePropagation_preserved)
  have s5: "ignoredPreserved (afterPropagation r) (afterDecompile r)"
    using decompileStage_preserved [of "afterPropagation r" env] by (simp only: stages(5))
  have all: "ignoredPreserved modules (afterDecompile r)"
    using s1 s2 s3 s4 s5 by (blast intro: ignoredPreserved_trans)
  then have len: "length (afterDecompile r) = length modules"
    by (simp add: ignoredPreserved_iff)
  have slots: "\<forall>i m. i < length modules \<and> modules ! i = Some m \<and> ignored m \<longrightarrow>
      afterDecompile r ! i = None \<or> (\<exists>m'. afterDecompile r ! i = Some m' \<and> ignored m')"
  proof (intro allI impI)
    fix i m
    assume im: "i < length modules \<and> modules ! i = Some m \<and> ignored m"
    with all have "staysIgnored (Some m) (afterDecompile r ! i)"
      by (auto simp: ignoredPreserved_iff)
    with im show "afterDecompile r ! i = None \<or>
        (\<exists>m'. afterDecompile r ! i = Some m' \<and> ignored m')"
      by (cases "afterDecompile r ! i") (simp_all add: staysIgnored_def)
  qed
  from s1 s2 s3 s4 s5 all len slots show ?thesis
    using evaluate_ignored [of m] routerParse_ignored [of m list ms] by blast
qed

text \<open>
  The chain in a run with the entry 0: module 0 is ignored from the start and stays so,
  the propagator ignores modules 1 and 2, and no module comes back.
\<close>

lemma chain_run:
  "(case pipeline exampleEnv (exampleArgs (Some 0) False False) exampleBundle None chainGraph
           bundleWorld of
      Some (Inr r) \<Rightarrow>
        map (map_option ignored) (afterTagging r) = [Some True, Some False, Some False] \<and>
        map (map_option ignored) (afterDecompile r) = [Some True, Some True, Some True]
    | _ \<Rightarrow> False)"
  by code_simp

theorem ignored_is_monotone_witness:
  "\<exists>r. pipeline exampleEnv (exampleArgs (Some 0) False False) exampleBundle None chainGraph
          bundleWorld = Some (Inr r) \<and>
        map (map_option ignored) chainGraph = [Some True, Some False, Some False] \<and>
        map (map_option ignored) (afterTagging r) = [Some True, Some False, Some False] \<and>
        map (map_option ignored) (afterDecompile r) = [Some True, Some True, Some True] \<and>
        ignoredPreserved chainGraph (afterTagging r) \<and>
        ignoredPreserved (afterTagging r) (afterDecompile r) \<and>
        ignoredPreserved chainGraph (afterDecompile r)"
proof -
  from chain_run obtain r where r:
    "pipeline exampleEnv (exampleArgs (Some 0) False False) exampleBundle None chainGraph
       bundleWorld = Some (Inr r)"
    "map (map_option ignored) (afterTagging r) = [Some True, Some False, Some False]"
    "map (map_option ignored) (afterDecompile r) = [Some True, Some True, Some True]"
    by (auto split: option.splits sum.splits)
  have start: "map (map_option ignored) chainGraph = [Some True, Some False, Some False]"
    by (simp add: chainGraph_def exampleModule_def)
  note t = ignored_is_monotone [OF r(1), of helperModule "[]" "[]"]
  from t have "ignoredPreserved chainGraph (afterTagging r)"
    by (blast intro: ignoredPreserved_trans)
  moreover from t have "ignoredPreserved (afterTagging r) (afterDecompile r)"
    by (blast intro: ignoredPreserved_trans)
  moreover from t have "ignoredPreserved chainGraph (afterDecompile r)" by blast
  ultimately have "pipeline exampleEnv (exampleArgs (Some 0) False False) exampleBundle None
        chainGraph bundleWorld = Some (Inr r) \<and>
      map (map_option ignored) chainGraph = [Some True, Some False, Some False] \<and>
      map (map_option ignored) (afterTagging r) = [Some True, Some False, Some False] \<and>
      map (map_option ignored) (afterDecompile r) = [Some True, Some True, Some True] \<and>
      ignoredPreserved chainGraph (afterTagging r) \<and>
      ignoredPreserved (afterTagging r) (afterDecompile r) \<and>
      ignoredPreserved chainGraph (afterDecompile r)"
    using r start by (simp only: simp_thms)
  then show ?thesis by (rule exI)
qed

section \<open>The slots of the graph\<close>

lemma array_set_nth:
  "j < length (array_set xs i v) \<Longrightarrow>
   array_set xs i v ! j = (if j = i then Some v else if j < length xs then xs ! j else None)"
proof (cases "i < length xs")
  case True
  assume "j < length (array_set xs i v)"
  with True show ?thesis by (auto simp: array_set_def)
next
  case False
  assume j: "j < length (array_set xs i v)"
  from False have len: "length (array_set xs i v) = Suc i" by (simp add: array_set_def)
  show ?thesis
  proof (cases "j < length xs")
    case True
    with False show ?thesis by (simp add: array_set_def nth_append)
  next
    case outside: False
    show ?thesis
    proof (cases "j = i")
      case True
      with False show ?thesis
        by (simp add: array_set_def nth_append)
    next
      case False
      with j len outside have "j - length xs < i - length xs" by simp
      with False outside \<open>\<not> i < length xs\<close> show ?thesis
        by (simp add: array_set_def nth_append)
    qed
  qed
qed

lemma array_set_slotsById:
  "slotsById xs \<Longrightarrow> moduleId v = i \<Longrightarrow> slotsById (array_set xs i v)"
  unfolding slotsById_def
  by (auto simp: array_set_nth split: option.splits)

lemma registerModules_slotsById:
  assumes "\<And>m. moduleId (f m) = moduleId m"
  shows "slotsById modules \<Longrightarrow> slotsById (registerModules f regs modules)"
proof (induction regs arbitrary: modules)
  case Nil
  then show ?case by (simp add: registerModules_def)
next
  case (Cons r regs)
  have "moduleId (f (newModule r)) = regModuleId r" by (simp add: assms newModule_def)
  with Cons.prems have "slotsById (array_set modules (regModuleId r) (f (newModule r)))"
    by (rule array_set_slotsById)
  from Cons.IH [OF this] show ?case by (simp add: registerModules_def)
qed

lemma loadCachedModules_slotsById:
  "slotsById modules \<Longrightarrow> loadCachedModules env agressive cms modules = Inr modules' \<Longrightarrow>
   slotsById modules'"
proof (induction cms arbitrary: modules)
  case Nil
  then show ?case by simp
next
  case (Cons cached rest)
  from Cons.prems(2) obtain regs where regs: "parse env (cachedSource agressive cached) = Inr regs"
    "loadCachedModules env agressive rest (registerModules (loadCache cached) regs modules)
       = Inr modules'"
    by (auto split: sum.splits)
  have "slotsById (registerModules (loadCache cached) regs modules)"
    using Cons.prems(1) by (intro registerModules_slotsById) (simp_all add: loadCache_def)
  from Cons.IH [OF this regs(2)] show ?case .
qed

text \<open>The graph the driver builds has each module in the slot of its identifier.\<close>

lemma buildModules_slotsById:
  "buildModules env args cacheFile inputJsFile = Inr modules \<Longrightarrow> slotsById modules"
proof (cases cacheFile)
  case None
  assume "buildModules env args cacheFile inputJsFile = Inr modules"
  with None obtain regs where "modules = registerModules (\<lambda>m. m) regs []"
    by (auto simp: buildModules_def parseModules_def split: sum.splits)
  moreover have "slotsById ([] :: 'a modules)" by (simp add: slotsById_def)
  ultimately show ?thesis by (simp add: registerModules_slotsById)
next
  case (Some c)
  assume "buildModules env args cacheFile inputJsFile = Inr modules"
  with Some have "loadCachedModules env (agressiveCache args)
      (validCachedModules (agressiveCache args) (cachedModules c)) [] = Inr modules"
    by (simp add: buildModules_def)
  moreover have "slotsById ([] :: 'a modules)" by (simp add: slotsById_def)
  ultimately show ?thesis using loadCachedModules_slotsById by blast
qed

text \<open>In such a graph the lookup of an identifier is the read of its slot.\<close>

lemma find_module_slot:
  assumes "slotsById modules"
  shows "find_module modules x = (if x < length modules then modules ! x else None)"
proof -
  let ?P = "\<lambda>slot. case slot of None \<Rightarrow> False | Some m \<Rightarrow> moduleId m = x"
  have only: "j = x" if "j < length modules" "?P (modules ! j)" for j
    using assms that by (auto simp: slotsById_def split: option.splits)
  show ?thesis
  proof (cases "x < length modules \<and> modules ! x \<noteq> None")
    case True
    then obtain m where m: "x < length modules" "modules ! x = Some m" by auto
    with assms have "moduleId m = x" by (auto simp: slotsById_def split: option.splits)
    with m have px: "?P (modules ! x)" by simp
    have "\<forall>j<x. \<not> ?P (modules ! j)"
    proof (intro allI impI)
      fix j assume "j < x"
      with m(1) only [of j] show "\<not> ?P (modules ! j)" by auto
    qed
    with m px have "List.find ?P modules = Some (modules ! x)"
      by (auto simp: find_Some_iff)
    with m show ?thesis by (simp add: find_module_def)
  next
    case False
    have "List.find ?P modules = None"
    proof (rule ccontr)
      assume "List.find ?P modules \<noteq> None"
      then obtain j where j: "j < length modules" "?P (modules ! j)"
        by (auto simp: find_None_iff in_set_conv_nth)
      with only have "j = x" by blast
      with j False show False by (auto split: option.splits)
    qed
    with False show ?thesis by (auto simp: find_module_def)
  qed
qed

section \<open>The ignore propagator in the aggressive cache mode\<close>

text \<open>
  C10. In the aggressive cache mode the ignore propagator returns the graph it was
  given: the first call of \<^verbatim>\<open>calculateModulesToIgnore\<close> leaves the list of modules to
  ignore empty, and the loop does not run. In a run in that mode the graph after the
  stage is the graph the tagging left, so the ignored flags are those of the taggers and
  of the cache.
\<close>

theorem aggressive_propagation_noop:
  "calculateModulesToIgnore True modules [] = [] \<and>
   ignorePropagation True modules = Some modules \<and>
   (agressiveCache args \<and> pipeline env args inputJsFile cacheFile modules w = Some (Inr r) \<longrightarrow>
      afterPropagation r = afterTagging r)"
proof -
  have noop: "ignorePropagation True ms = Some ms" for ms :: "'a modules"
    by (simp add: ignorePropagation_def calculateModulesToIgnore_def ignoreLoop.simps)
  have "afterPropagation r = afterTagging r"
    if "agressiveCache args" "pipeline env args inputJsFile cacheFile modules w = Some (Inr r)"
    using pipeline_stages(4) [OF that(2)] that(1) noop [of "afterTagging r"] by simp
  with noop [of modules] show ?thesis
    by (simp add: calculateModulesToIgnore_def)
qed

text \<open>
  The chain in a run in the aggressive mode: modules 1 and 2 are not ignored after the
  stage, while the propagator out of that mode ignores them.
\<close>

lemma chain_agressive_run:
  "(case pipeline exampleEnv (exampleArgs None True False) exampleBundle (Some emptyCache)
           chainGraph bundleWorld of
      Some (Inr r) \<Rightarrow>
        map (map_option ignored) (afterPropagation r) = [Some True, Some False, Some False]
    | _ \<Rightarrow> False)"
  by code_simp

theorem aggressive_propagation_noop_witness:
  "\<exists>r. pipeline exampleEnv (exampleArgs None True False) exampleBundle (Some emptyCache)
          chainGraph bundleWorld = Some (Inr r) \<and>
        afterPropagation r = afterTagging r \<and>
        map (map_option ignored) (afterPropagation r) = [Some True, Some False, Some False] \<and>
        ignorePropagation True chainGraph = Some chainGraph \<and>
        ignorePropagation False chainGraph \<noteq> Some chainGraph"
proof -
  from chain_agressive_run obtain r where r:
    "pipeline exampleEnv (exampleArgs None True False) exampleBundle (Some emptyCache)
       chainGraph bundleWorld = Some (Inr r)"
    "map (map_option ignored) (afterPropagation r) = [Some True, Some False, Some False]"
    by (auto split: option.splits sum.splits)
  have ag: "agressiveCache (exampleArgs None True False)" by (simp add: exampleArgs_def)
  note t = aggressive_propagation_noop [of chainGraph "exampleArgs None True False" exampleEnv
      exampleBundle "Some emptyCache" bundleWorld r]
  from t ag r(1) have same: "afterPropagation r = afterTagging r" by blast
  from t have noop: "ignorePropagation True chainGraph = Some chainGraph" by blast
  have "ignorePropagation False chainGraph = ignorePropagation False (ignoreRound chainGraph)"
    by (subst ignorePropagation_step) code_simp
  moreover obtain r' where "ignorePropagation False (ignoreRound chainGraph) = Some r'"
    "ignoredPreserved (ignoreRound chainGraph) r'"
    using ignorePropagation_terminates by blast
  moreover have "\<not> ignoredPreserved (ignoreRound chainGraph) chainGraph"
    by code_simp
  ultimately have differs: "ignorePropagation False chainGraph \<noteq> Some chainGraph" by auto
  from r same noop differs
  have "pipeline exampleEnv (exampleArgs None True False) exampleBundle (Some emptyCache)
        chainGraph bundleWorld = Some (Inr r) \<and>
      afterPropagation r = afterTagging r \<and>
      map (map_option ignored) (afterPropagation r) = [Some True, Some False, Some False] \<and>
      ignorePropagation True chainGraph = Some chainGraph \<and>
      ignorePropagation False chainGraph \<noteq> Some chainGraph"
    by (simp only: simp_thms)
  then show ?thesis by (rule exI)
qed

end
